theory Spec2Isabelle
  imports Main "HOL-Library.Word" "HOL-Library.Char_ord" "HOL-Library.List_Lexorder"
begin

section \<open>The ac2lsl plugin: data model\<close>

text \<open>
  The embedding follows \<^verbatim>\<open>mha/plugins/ac2lsl/ac2lsl.cpp\<close>. Pointers into the AC space
  are opaque addresses; an address counts scalar slots of the buffer's element type, so
  that \<^verbatim>\<open>p[j]\<close> is the slot \<open>p + j\<close>. The C type \<^verbatim>\<open>unsigned\<close> is \<open>32 word\<close>.
\<close>

type_synonym addr = nat

type_synonym 'v memory = "addr \<Rightarrow> 'v"

text \<open>
  The type ids of \<^verbatim>\<open>mha.h\<close> that the plugin switches on. The header is not part of the
  plugin; the five ids the switch names are pairwise distinct (they are labels of one
  \<^verbatim>\<open>switch\<close>), and every other value of the \<^verbatim>\<open>unsigned\<close> field is \<open>MHA_AC_OTHER\<close>.
\<close>

datatype ac_type =
    MHA_AC_INT
  | MHA_AC_FLOAT
  | MHA_AC_DOUBLE
  | MHA_AC_MHAREAL
  | MHA_AC_MHACOMPLEX
  | MHA_AC_OTHER "32 word"

text \<open>\<^verbatim>\<open>comm_var_t\<close>: what \<^verbatim>\<open>get_var\<close> writes for a variable of the AC space.\<close>

record comm_var_t =
  data_type :: ac_type
  num_entries :: "32 word"
  stride :: "32 word"
  data :: addr

text \<open>
  The AC space as \<^verbatim>\<open>get_var\<close> sees it: \<open>None\<close> is a non-zero return code, \<open>Some v\<close> is
  return code 0 with \<open>v\<close> written to the out parameter.
\<close>

type_synonym algo_comm_t = "string \<rightharpoonup> comm_var_t"

datatype channel_format_t = cf_int32 | cf_float32 | cf_double64

text \<open>
  \<^verbatim>\<open>lsl::stream_info\<close>: the metadata the plugin passes to its constructor. The sampling
  rate is a \<^verbatim>\<open>double\<close> that the plugin only stores and hands on: its type is a
  parameter. The channel count is kept as the 32-bit pattern that
  \<^verbatim>\<open>static_cast<unsigned>(info().channel_count())\<close> reads back.
\<close>

record 'r stream_info =
  stream_name :: string
  stream_type :: string
  channel_count :: "32 word"
  nominal_srate :: 'r
  channel_format :: channel_format_t
  stream_source_id :: string

datatype error =
    No_such_variable string
  | Unknown_data_type "32 word"
  | No_scheduling_parameters
  | Real_time_thread
  | List_too_long
  | Invalid_ac_handle
  | Host_error string

text \<open>The template parameter \<^verbatim>\<open>T\<close> of the generic \<^verbatim>\<open>save_var_t<T>\<close>.\<close>

datatype elem_t = T_int | T_float | T_double | T_mha_real

text \<open>
  \<^verbatim>\<open>save_var_base_t\<close> and its two implementations: the generic bridge with members
  \<^verbatim>\<open>stream\<close>, \<^verbatim>\<open>buf\<close>, \<^verbatim>\<open>data_type_\<close>, and the specialisation for
  \<^verbatim>\<open>mha_complex_t\<close> with members \<^verbatim>\<open>stream\<close>, \<^verbatim>\<open>buf\<close>.
\<close>

datatype 'r save_var_base_t =
    save_var_t elem_t "'r stream_info" addr ac_type
  | save_var_t_complex "'r stream_info" addr

fun get_buf_address :: "'r save_var_base_t \<Rightarrow> addr" where
  "get_buf_address (save_var_t T si buf dt) = buf"
| "get_buf_address (save_var_t_complex si buf) = buf"

fun set_buf_address :: "'r save_var_base_t \<Rightarrow> addr \<Rightarrow> 'r save_var_base_t" where
  "set_buf_address (save_var_t T si buf dt) p = save_var_t T si p dt"
| "set_buf_address (save_var_t_complex si buf) p = save_var_t_complex si p"

fun info :: "'r save_var_base_t \<Rightarrow> 'r stream_info" where
  "info (save_var_t T si buf dt) = si"
| "info (save_var_t_complex si buf) = si"

fun var_data_type :: "'r save_var_base_t \<Rightarrow> ac_type" where
  "var_data_type (save_var_t T si buf dt) = dt"
| "var_data_type (save_var_t_complex si buf) = MHA_AC_MHACOMPLEX"

text \<open>
  Modelled from the spec: \<^verbatim>\<open>mha_complex_t\<close> is declared in \<^verbatim>\<open>mha.h\<close>, outside the plugin,
  as a pair of scalars \<^verbatim>\<open>re\<close>, \<^verbatim>\<open>im\<close>; an array of them is "a contiguous sequence of
  (real, imaginary) pairs". Element \<open>i\<close> of the array at \<open>buf\<close> has its real part in
  slot \<open>buf + 2 * i\<close> and its imaginary part in the next slot.
\<close>

definition re_addr :: "addr \<Rightarrow> nat \<Rightarrow> addr" where
  "re_addr buf i = buf + 2 * i"

definition im_addr :: "addr \<Rightarrow> nat \<Rightarrow> addr" where
  "im_addr buf i = buf + 2 * i + 1"

text \<open>
  Modelled from the spec: \<^verbatim>\<open>stream_outlet::push_sample\<close> belongs to the streaming
  library. "\<^verbatim>\<open>stream_handle.push_sample(pointer_to_contiguous_values)\<close>" pushes one sample
  of as many contiguous scalars as the stream has channels, starting at the pointer.
\<close>

definition push_sample :: "'r stream_info \<Rightarrow> 'v memory \<Rightarrow> addr \<Rightarrow> 'v list" where
  "push_sample si mem p = map (\<lambda>j. mem (p + j)) [0..<unat (channel_count si)]"

fun send_frame :: "'v memory \<Rightarrow> 'r save_var_base_t \<Rightarrow> 'v list" where
  "send_frame mem (save_var_t T si buf dt) = push_sample si mem buf"
| "send_frame mem (save_var_t_complex si buf) = push_sample si mem (re_addr buf 0)"

text \<open>
  \<^verbatim>\<open>std::map<std::string, std::unique_ptr<save_var_base_t>>\<close>: an association list in
  key order. \<^verbatim>\<open>varlist[k] = v\<close> replaces the value of a key that is present, in place,
  and inserts a new key at its place in the order.
\<close>

type_synonym 'r varlist_t = "(string \<times> 'r save_var_base_t) list"

definition map_assign :: "string \<Rightarrow> 'a \<Rightarrow> (string \<times> 'a) list \<Rightarrow> (string \<times> 'a) list" where
  "map_assign k v m =
     (if k \<in> set (map fst m)
      then map (\<lambda>(k', v'). if k' = k then (k', v) else (k', v')) m
      else insort_key fst (k, v) m)"

text \<open>\<^verbatim>\<open>cfg_t\<close>; the reference \<^verbatim>\<open>ac\<close> to the AC space is an argument of each operation.\<close>

record 'r cfg_t =
  varlist :: "'r varlist_t"
  skipcnt :: "32 word"
  skip :: "32 word"
  srate :: 'r
  source_id :: string

section \<open>The bridge factory\<close>

text \<open>
  \<^verbatim>\<open>cfg_t::make_or_replace_var\<close>: the switch on the type id of the variable. Each case
  builds the stream metadata and the bridge and assigns it to \<^verbatim>\<open>varlist[name]\<close>; creating
  the outlet of the streaming library is taken to succeed. The default case throws.
\<close>

definition make_or_replace_var ::
  "'r cfg_t \<Rightarrow> string \<Rightarrow> comm_var_t \<Rightarrow> error + 'r cfg_t" where
  "make_or_replace_var cfg nm v =
     (case data_type v of
        MHA_AC_INT \<Rightarrow>
          Inr (cfg\<lparr>varlist := map_assign nm
            (save_var_t T_int
               \<lparr>stream_name = nm, stream_type = ''MHA_AC_INT'',
                channel_count = num_entries v, nominal_srate = srate cfg,
                channel_format = cf_int32, stream_source_id = source_id cfg\<rparr>
               (data v) (data_type v))
            (varlist cfg)\<rparr>)
      | MHA_AC_FLOAT \<Rightarrow>
          Inr (cfg\<lparr>varlist := map_assign nm
            (save_var_t T_float
               \<lparr>stream_name = nm, stream_type = ''MHA_AC_FLOAT'',
                channel_count = num_entries v, nominal_srate = srate cfg,
                channel_format = cf_float32, stream_source_id = source_id cfg\<rparr>
               (data v) (data_type v))
            (varlist cfg)\<rparr>)
      | MHA_AC_DOUBLE \<Rightarrow>
          Inr (cfg\<lparr>varlist := map_assign nm
            (save_var_t T_double
               \<lparr>stream_name = nm, stream_type = ''MHA_AC_DOUBLE'',
                channel_count = num_entries v, nominal_srate = srate cfg,
                channel_format = cf_double64, stream_source_id = source_id cfg\<rparr>
               (data v) (data_type v))
            (varlist cfg)\<rparr>)
      | MHA_AC_MHAREAL \<Rightarrow>
          Inr (cfg\<lparr>varlist := map_assign nm
            (save_var_t T_mha_real
               \<lparr>stream_name = nm, stream_type = ''MHA_AC_MHAREAL'',
                channel_count = num_entries v, nominal_srate = srate cfg,
                channel_format = cf_float32, stream_source_id = source_id cfg\<rparr>
               (data v) (data_type v))
            (varlist cfg)\<rparr>)
      | MHA_AC_MHACOMPLEX \<Rightarrow>
          Inr (cfg\<lparr>varlist := map_assign nm
            (save_var_t_complex
               \<lparr>stream_name = nm, stream_type = ''MHA_AC_COMPLEX'',
                channel_count = 2 * num_entries v, nominal_srate = srate cfg,
                channel_format = cf_float32, stream_source_id = source_id cfg\<rparr>
               (data v))
            (varlist cfg)\<rparr>)
      | MHA_AC_OTHER w \<Rightarrow> Inl (Unknown_data_type w))"

text \<open>The adapter that the registry holds for a name, if any.\<close>

definition adapter :: "'r cfg_t \<Rightarrow> string \<Rightarrow> 'r save_var_base_t option" where
  "adapter cfg nm = map_of (varlist cfg) nm"

section \<open>Reconciliation and the throttle\<close>

text \<open>
  What a call does besides changing the registry: the calls of \<^verbatim>\<open>set_buf_address\<close>, the
  adapters replaced through \<^verbatim>\<open>make_or_replace_var\<close>, and the samples pushed.
\<close>

datatype 'v event =
    Set_buf_address string addr
  | Replaced string
  | Push_sample string "'v list"

text \<open>
  The body of the loop of \<^verbatim>\<open>update_varlist\<close> for the entry with key \<open>nm\<close>. Both
  \<^verbatim>\<open>throw\<close>s come before any assignment. The loop visits keys of \<open>varlist\<close> only, so
  the entry is there; the model leaves the registry alone otherwise.
\<close>

definition update_var ::
  "algo_comm_t \<Rightarrow> 'r cfg_t \<Rightarrow> string \<Rightarrow> error + ('r cfg_t \<times> 'v event list)" where
  "update_var ac cfg nm =
     (case ac nm of
        None \<Rightarrow> Inl (No_such_variable nm)
      | Some v \<Rightarrow>
         (case adapter cfg nm of
            None \<Rightarrow> Inr (cfg, [])
          | Some sv \<Rightarrow>
              if get_buf_address sv \<noteq> data v \<and>
                 channel_count (info sv) = num_entries v \<and>
                 var_data_type sv = data_type v
              then Inr (cfg\<lparr>varlist := map_assign nm (set_buf_address sv (data v)) (varlist cfg)\<rparr>,
                        [Set_buf_address nm (data v)])
              else if var_data_type sv \<noteq> data_type v
              then (case make_or_replace_var cfg nm v of
                      Inl e \<Rightarrow> Inl e
                    | Inr cfg' \<Rightarrow> Inr (cfg', [Replaced nm]))
              else if channel_count (info sv) \<noteq>
                        (if data_type v = MHA_AC_MHACOMPLEX
                         then num_entries v * 2 else num_entries v)
              then (case make_or_replace_var cfg nm v of
                      Inl e \<Rightarrow> Inl e
                    | Inr cfg' \<Rightarrow> Inr (cfg', [Replaced nm]))
              else Inr (cfg, [])))"

text \<open>
  The loop over the entries, in key order. An exception leaves the loop with the registry
  as the entries before it left it.
\<close>

fun update_loop ::
  "algo_comm_t \<Rightarrow> string list \<Rightarrow> 'r cfg_t \<Rightarrow> 'v event list
     \<Rightarrow> error option \<times> 'r cfg_t \<times> 'v event list" where
  "update_loop ac [] cfg evs = (None, cfg, evs)"
| "update_loop ac (nm # nms) cfg evs =
     (case update_var ac cfg nm of
        Inl e \<Rightarrow> (Some e, cfg, evs)
      | Inr (cfg', ev) \<Rightarrow> update_loop ac nms cfg' (evs @ ev))"

definition update_varlist ::
  "algo_comm_t \<Rightarrow> 'r cfg_t \<Rightarrow> error option \<times> 'r cfg_t \<times> 'v event list" where
  "update_varlist ac cfg = update_loop ac (map fst (varlist cfg)) cfg []"

text \<open>The loop of \<^verbatim>\<open>cfg_t::process\<close> that sends one frame for every entry.\<close>

definition send_all :: "'v memory \<Rightarrow> 'r cfg_t \<Rightarrow> 'v event list" where
  "send_all mem cfg = map (\<lambda>(nm, sv). Push_sample nm (send_frame mem sv)) (varlist cfg)"

definition cfg_process ::
  "algo_comm_t \<Rightarrow> 'v memory \<Rightarrow> 'r cfg_t \<Rightarrow> error option \<times> 'r cfg_t \<times> 'v event list" where
  "cfg_process ac mem cfg =
     (case update_varlist ac cfg of
        (Some e, cfg', evs) \<Rightarrow> (Some e, cfg', evs)
      | (None, cfg', evs) \<Rightarrow>
          if skipcnt cfg' = 0
          then (None, cfg'\<lparr>skipcnt := skip cfg'\<rparr>, evs @ send_all mem cfg')
          else (None, cfg'\<lparr>skipcnt := skipcnt cfg' - 1\<rparr>, evs))"

text \<open>
  The constructor \<^verbatim>\<open>cfg_t::cfg_t\<close>: the member initialisers, then one adapter for every
  requested name. A constructor that throws leaves no object.
\<close>

fun cfg_init_loop :: "algo_comm_t \<Rightarrow> string list \<Rightarrow> 'r cfg_t \<Rightarrow> error + 'r cfg_t" where
  "cfg_init_loop ac [] cfg = Inr cfg"
| "cfg_init_loop ac (nm # nms) cfg =
     (case ac nm of
        None \<Rightarrow> Inl (No_such_variable nm)
      | Some v \<Rightarrow>
         (case make_or_replace_var cfg nm v of
            Inl e \<Rightarrow> Inl e
          | Inr cfg' \<Rightarrow> cfg_init_loop ac nms cfg'))"

definition new_cfg_t ::
  "algo_comm_t \<Rightarrow> 32 word \<Rightarrow> string \<Rightarrow> string list \<Rightarrow> 'r \<Rightarrow> error + 'r cfg_t" where
  "new_cfg_t ac skip' source_id' varnames rate =
     cfg_init_loop ac varnames
       \<lparr>varlist = [], skipcnt = skip', skip = skip', srate = rate, source_id = source_id'\<rparr>"

section \<open>The plugin class\<close>

text \<open>
  The scheduling policies of \<^verbatim>\<open>sched.h\<close> that \<^verbatim>\<open>process\<close> tells apart: the two real-time
  policies, and \<open>SCHED_OTHER\<close> for every other value that \<^verbatim>\<open>pthread_getschedparam\<close> writes.
\<close>

datatype sched_policy = SCHED_OTHER | SCHED_FIFO | SCHED_RR

text \<open>
  \<^verbatim>\<open>ac2lsl_t\<close>, with the members that \<^verbatim>\<open>process\<close> reads: two of the configuration
  variables, the flag of the one-time check, and the inherited pointer \<^verbatim>\<open>cfg\<close> to the
  current runtime configuration (null before the first configuration is polled).
\<close>

record 'r ac2lsl_t =
  rt_strict :: bool
  activate :: bool
  is_first_run :: bool
  cfg_ptr :: "'r cfg_t option"

text \<open>
  Modelled from the spec: \<^verbatim>\<open>poll_config\<close> belongs to the host's configuration swap
  (\<^verbatim>\<open>MHAPlugin::plugin_t\<close>), which is not part of the plugin. "The processing thread
  always sees either the prior fully-built Registry or a new fully-built one": the call
  makes the configuration published since the last call current, if there is one, keeps
  the current one otherwise, and fails when there is none at all.
\<close>

definition poll_config :: "'r cfg_t option \<Rightarrow> 'r ac2lsl_t \<Rightarrow> error + 'r cfg_t" where
  "poll_config published p =
     (case published of
        Some c \<Rightarrow> Inr c
      | None \<Rightarrow>
         (case cfg_ptr p of
            Some c \<Rightarrow> Inr c
          | None \<Rightarrow> Inl (Host_error ''no runtime configuration'')))"

text \<open>
  \<^verbatim>\<open>ac2lsl_t::process\<close>. The argument \<open>sched\<close> is what \<^verbatim>\<open>pthread_getschedparam\<close> yields
  for the calling thread: its return code and the policy. The flag \<^verbatim>\<open>is_first_run\<close> is
  cleared before either \<^verbatim>\<open>throw\<close>, so the state after an exception is part of the result.
\<close>

definition process ::
  "int \<times> sched_policy \<Rightarrow> 'r cfg_t option \<Rightarrow> algo_comm_t \<Rightarrow> 'v memory \<Rightarrow> 'r ac2lsl_t
     \<Rightarrow> error option \<times> 'r ac2lsl_t \<times> 'v event list" where
  "process sched published ac mem p =
     (let (thrown, p1) =
        (if is_first_run p then
           (if rt_strict p then
              (let p' = p\<lparr>is_first_run := False\<rparr>; (ret, policy) = sched in
               if ret \<noteq> 0 then (Some No_scheduling_parameters, p')
               else if policy = SCHED_FIFO \<or> policy = SCHED_RR then (Some Real_time_thread, p')
               else (None, p'))
            else (None, p))
         else (None, p))
      in case thrown of
           Some e \<Rightarrow> (Some e, p1, [])
         | None \<Rightarrow>
            (case poll_config published p1 of
               Inl e \<Rightarrow> (Some e, p1, [])
             | Inr c \<Rightarrow>
                 if activate p1
                 then (case cfg_process ac mem c of
                         (e, c', evs) \<Rightarrow> (e, p1\<lparr>cfg_ptr := Some c'\<rparr>, evs))
                 else (None, p1\<lparr>cfg_ptr := Some c\<rparr>, [])))"

text \<open>
  The loop of \<^verbatim>\<open>get_all_names_from_ac_space\<close>. The argument \<open>get_entries\<close> is the
  function of the AC space: for a buffer length it yields the return code and the string
  left in the buffer. The loop is a \<^verbatim>\<open>do ... while\<close> that may not end for every start
  value, so its result is an option. Beside the outcome it yields the buffer lengths it
  asked with, in order.
\<close>

partial_function (option) get_entries_loop ::
  "(32 word \<Rightarrow> int \<times> string) \<Rightarrow> 32 word \<Rightarrow> 32 word list
     \<Rightarrow> (32 word list \<times> (error + int \<times> string)) option" where
  "get_entries_loop get_entries cstr_len tried =
     (let len = push_bit 1 cstr_len in
      if len > 0x100000 then Some (tried, Inl List_too_long)
      else (case get_entries len of
              (rc, entr) \<Rightarrow>
                if rc = - 3 then get_entries_loop get_entries len (tried @ [len])
                else Some (tried @ [len], Inr (rc, entr))))"

text \<open>
  \<^verbatim>\<open>get_all_names_from_ac_space\<close>; the tokeniser \<^verbatim>\<open>MHAParser::StrCnv::str2val\<close> of the
  host is the argument \<open>str2val\<close>.
\<close>

definition get_all_names_from_ac_space ::
  "(32 word \<Rightarrow> int \<times> string) \<Rightarrow> (string \<Rightarrow> error + string list)
     \<Rightarrow> (error + string list) option" where
  "get_all_names_from_ac_space get_entries str2val =
     (case get_entries_loop get_entries 512 [] of
        None \<Rightarrow> None
      | Some (tried, Inl e) \<Rightarrow> Some (Inl e)
      | Some (tried, Inr (rc, entr)) \<Rightarrow>
          if rc = - 1 then Some (Inl Invalid_ac_handle)
          else Some (str2val (''['' @ entr @ '']'')))"

text \<open>
  Modelled from the spec: \<^verbatim>\<open>get_entries\<close> is implemented by the host's AC space, not by
  the plugin. A catalogue whose listing is the string \<open>listing\<close> answers a query with a
  buffer of \<open>len\<close> bytes by the "buffer too small" code \<open>- 3\<close> unless the listing and its
  terminating zero fit, and by code 0 and the listing when they do.
\<close>

definition ac_get_entries :: "string \<Rightarrow> 32 word \<Rightarrow> int \<times> string" where
  "ac_get_entries listing len = (if length listing < unat len then (0, listing) else (- 3, []))"

section \<open>Notions the properties are stated with\<close>

text \<open>
  The complex values that an array of \<open>n\<close> elements of \<^verbatim>\<open>mha_complex_t\<close> at \<open>buf\<close> holds,
  \<^verbatim>\<open>(buf[i].re, buf[i].im)\<close> for \<open>i\<close> below \<open>n\<close>, and the sequence
  \<open>re\<^sub>0, im\<^sub>0, re\<^sub>1, im\<^sub>1, \<dots>\<close> of a list of complex values.
\<close>

definition read_complex :: "'v memory \<Rightarrow> addr \<Rightarrow> nat \<Rightarrow> ('v \<times> 'v) list" where
  "read_complex mem buf n = map (\<lambda>i. (mem (re_addr buf i), mem (im_addr buf i))) [0..<n]"

definition interleave :: "('v \<times> 'v) list \<Rightarrow> 'v list" where
  "interleave cs = concat (map (\<lambda>(re, im). [re, im]) cs)"

fun is_push :: "'v event \<Rightarrow> bool" where
  "is_push (Push_sample nm fr) = True"
| "is_push (Set_buf_address nm p) = False"
| "is_push (Replaced nm) = False"

text \<open>The names of the adapters that pushed a sample, in the order of the pushes.\<close>

fun pushed :: "'v event \<Rightarrow> string list" where
  "pushed (Push_sample nm fr) = [nm]"
| "pushed (Set_buf_address nm p) = []"
| "pushed (Replaced nm) = []"

definition pushed_names :: "'v event list \<Rightarrow> string list" where
  "pushed_names tr = concat (map pushed tr)"

text \<open>
  Consecutive processing cycles on one registry: cycle \<open>i\<close> sees the AC space and the
  memory of the \<open>i\<close>-th input and yields the error, the registry and the events of its
  call of \<^verbatim>\<open>cfg_t::process\<close>.
\<close>

fun run_cycles ::
  "(algo_comm_t \<times> 'v memory) list \<Rightarrow> 'r cfg_t
     \<Rightarrow> (error option \<times> 'r cfg_t \<times> 'v event list) list" where
  "run_cycles [] cfg = []"
| "run_cycles ((ac, mem) # rest) cfg =
     (case cfg_process ac mem cfg of (e, cfg', tr) \<Rightarrow> (e, cfg', tr) # run_cycles rest cfg')"

text \<open>
  The adapter of a name agrees with the variable of the AC space: same address, same type
  id, and the channel count that the variable's entries need.
\<close>

definition in_sync :: "algo_comm_t \<Rightarrow> 'r cfg_t \<Rightarrow> string \<Rightarrow> bool" where
  "in_sync ac cfg nm =
     (case (ac nm, adapter cfg nm) of
        (Some v, Some sv) \<Rightarrow>
          get_buf_address sv = data v \<and> var_data_type sv = data_type v \<and>
          channel_count (info sv) =
            (if data_type v = MHA_AC_MHACOMPLEX then num_entries v * 2 else num_entries v)
      | _ \<Rightarrow> False)"

text \<open>Every stream of the registry declares the registry's sampling rate and source id.\<close>

definition rate_inv :: "'r cfg_t \<Rightarrow> bool" where
  "rate_inv cfg =
     list_all (\<lambda>(nm, sv). nominal_srate (info sv) = srate cfg \<and>
                           stream_source_id (info sv) = source_id cfg) (varlist cfg)"

text \<open>
  The error that the lookup of one monitored name can end in: the name is absent, or its
  variable has a type id without a case in the factory. The first such error along a list
  of names.
\<close>

definition lookup_error :: "algo_comm_t \<Rightarrow> string \<Rightarrow> error option" where
  "lookup_error ac k =
     (case ac k of
        None \<Rightarrow> Some (No_such_variable k)
      | Some v \<Rightarrow>
         (case data_type v of
            MHA_AC_OTHER w \<Rightarrow> Some (Unknown_data_type w)
          | _ \<Rightarrow> None))"

fun first_error :: "algo_comm_t \<Rightarrow> string list \<Rightarrow> error option" where
  "first_error ac [] = None"
| "first_error ac (k # ks) =
     (case lookup_error ac k of Some e \<Rightarrow> Some e | None \<Rightarrow> first_error ac ks)"

text \<open>The type ids for which the factory has a case.\<close>

definition supported :: "ac_type \<Rightarrow> bool" where
  "supported t = (case t of MHA_AC_OTHER w \<Rightarrow> False | _ \<Rightarrow> True)"

text \<open>
  Every adapter of the registry has a type id with a case in the factory, as every adapter
  that the factory builds has.
\<close>

definition types_inv :: "'r cfg_t \<Rightarrow> bool" where
  "types_inv cfg = list_all (\<lambda>(nm, sv). supported (var_data_type sv)) (varlist cfg)"

text \<open>
  The one-time check of \<^verbatim>\<open>process\<close> fires: first call, \<^verbatim>\<open>rt_strict\<close> on, and the
  scheduling parameters unreadable or the policy a real-time one.
\<close>

definition rt_violation :: "int \<times> sched_policy \<Rightarrow> 'r ac2lsl_t \<Rightarrow> bool" where
  "rt_violation sched p =
     (is_first_run p \<and> rt_strict p \<and>
      (fst sched \<noteq> 0 \<or> snd sched = SCHED_FIFO \<or> snd sched = SCHED_RR))"

section \<open>Example registries\<close>

text \<open>
  The variable \<open>level\<close> of four floats at address 64, and a registry that monitors it with
  the counter at \<open>c\<close> and \<open>skip = k\<close>.
\<close>

definition level_ac :: algo_comm_t where
  "level_ac = map_of
     [(''level'', \<lparr>data_type = MHA_AC_FLOAT, num_entries = 4, stride = 1, data = 64\<rparr>)]"

definition level_cfg :: "32 word \<Rightarrow> 32 word \<Rightarrow> unit cfg_t" where
  "level_cfg c k =
     \<lparr>varlist = [(''level'', save_var_t T_float
          \<lparr>stream_name = ''level'', stream_type = ''MHA_AC_FLOAT'', channel_count = 4,
           nominal_srate = (), channel_format = cf_float32, stream_source_id = ''id''\<rparr>
          64 MHA_AC_FLOAT)],
      skipcnt = c, skip = k, srate = (), source_id = ''id''\<rparr>"

text \<open>
  The variable \<open>spec\<close> of \<open>n\<close> complex values at address \<open>p\<close>, and a registry whose adapter
  for \<open>spec\<close> has \<open>ch\<close> channels and the address \<open>p\<close>.
\<close>

definition spec_ac :: "32 word \<Rightarrow> addr \<Rightarrow> algo_comm_t" where
  "spec_ac n p = map_of
     [(''spec'', \<lparr>data_type = MHA_AC_MHACOMPLEX, num_entries = n, stride = 1, data = p\<rparr>)]"

definition spec_cfg :: "32 word \<Rightarrow> addr \<Rightarrow> unit cfg_t" where
  "spec_cfg ch p =
     \<lparr>varlist = [(''spec'', save_var_t_complex
          \<lparr>stream_name = ''spec'', stream_type = ''MHA_AC_COMPLEX'', channel_count = ch,
           nominal_srate = (), channel_format = cf_float32, stream_source_id = ''id''\<rparr> p)],
      skipcnt = 0, skip = 0, srate = (), source_id = ''id''\<rparr>"

text \<open>
  The registry that monitors the float variables \<open>a\<close> at address 8 and \<open>b\<close> at address 16,
  and the AC space in which \<open>a\<close> has taken the type id 51 and \<open>b\<close> is gone.
\<close>

definition pair_ac :: algo_comm_t where
  "pair_ac = map_of
     [(''a'', \<lparr>data_type = MHA_AC_FLOAT, num_entries = 1, stride = 1, data = 8\<rparr>),
      (''b'', \<lparr>data_type = MHA_AC_FLOAT, num_entries = 1, stride = 1, data = 16\<rparr>)]"

definition pair_cfg :: "unit cfg_t" where
  "pair_cfg =
     \<lparr>varlist =
        [(''a'', save_var_t T_float
           \<lparr>stream_name = ''a'', stream_type = ''MHA_AC_FLOAT'', channel_count = 1,
            nominal_srate = (), channel_format = cf_float32, stream_source_id = ''id''\<rparr>
           8 MHA_AC_FLOAT),
         (''b'', save_var_t T_float
           \<lparr>stream_name = ''b'', stream_type = ''MHA_AC_FLOAT'', channel_count = 1,
            nominal_srate = (), channel_format = cf_float32, stream_source_id = ''id''\<rparr>
           16 MHA_AC_FLOAT)],
      skipcnt = 0, skip = 0, srate = (), source_id = ''id''\<rparr>"

text \<open>The AC space in which only \<open>b\<close> is gone.\<close>

definition pair_ac_b_gone :: algo_comm_t where
  "pair_ac_b_gone = map_of
     [(''a'', \<lparr>data_type = MHA_AC_FLOAT, num_entries = 1, stride = 1, data = 8\<rparr>)]"

definition pair_ac_later :: algo_comm_t where
  "pair_ac_later = map_of
     [(''a'', \<lparr>data_type = MHA_AC_OTHER 51, num_entries = 1, stride = 1, data = 8\<rparr>)]"

section \<open>Facts about the registry as a map\<close>

lemma map_of_replace_same:
  "k \<in> set (map fst m) \<Longrightarrow>
   map_of (map (\<lambda>(k', v'). if k' = k then (k', v) else (k', v')) m) k = Some v"
  by (induction m) auto

lemma map_of_insort_same: "map_of (insort_key fst (k, v) m) k = Some v"
  by (induction m) auto

lemma map_of_map_assign_same: "map_of (map_assign k v m) k = Some v"
  by (simp add: map_assign_def map_of_replace_same map_of_insort_same)

lemma map_fst_replace:
  "map fst (map (\<lambda>(k', v'). if k' = k then (k', v) else (k', v')) m) = map fst m"
  by (induction m) auto

lemma map_fst_map_assign_present:
  assumes "k \<in> set (map fst m)"
  shows "map fst (map_assign k v m) = map fst m"
  unfolding map_assign_def using assms by (simp only: if_True map_fst_replace)

lemma adapter_Some_key: "adapter cfg nm = Some sv \<Longrightarrow> nm \<in> set (map fst (varlist cfg))"
  by (auto simp: adapter_def dest: map_of_SomeD intro: rev_image_eqI)

lemma set_map_assign_subset: "set (map_assign k v m) \<subseteq> insert (k, v) (set m)"
  by (auto simp: map_assign_def set_insort_key split: if_splits)

section \<open>Evaluation at concrete registries\<close>

lemmas run_defs = new_cfg_t_def make_or_replace_var_def map_assign_def update_varlist_def
  update_var_def adapter_def cfg_process_def send_all_def push_sample_def re_addr_def upt_rec
  level_ac_def level_cfg_def spec_ac_def spec_cfg_def

section \<open>Facts about the factory\<close>

lemma make_or_replace_var_adapter:
  "make_or_replace_var cfg nm v = Inr cfg' \<Longrightarrow> \<exists>sv. adapter cfg' nm = Some sv \<and>
      channel_count (info sv) =
        (if data_type v = MHA_AC_MHACOMPLEX then 2 * num_entries v else num_entries v) \<and>
      var_data_type sv = data_type v \<and> get_buf_address sv = data v"
  by (auto simp: make_or_replace_var_def adapter_def map_of_map_assign_same split: ac_type.splits)

lemma make_or_replace_var_Inl:
  "make_or_replace_var cfg nm v = Inl e \<longleftrightarrow>
   (\<exists>w. data_type v = MHA_AC_OTHER w \<and> e = Unknown_data_type w)"
  by (auto simp: make_or_replace_var_def split: ac_type.splits)

lemma make_or_replace_var_keep:
  assumes "make_or_replace_var cfg nm v = Inr cfg'" and "nm \<in> set (map fst (varlist cfg))"
  shows "map fst (varlist cfg') = map fst (varlist cfg)"
proof -
  have same: "map fst (map_assign nm x (varlist cfg)) = map fst (varlist cfg)" for x
    using assms(2) by (rule map_fst_map_assign_present)
  from assms(1) show ?thesis
    by (auto simp: make_or_replace_var_def same split: ac_type.splits)
qed

lemma make_or_replace_var_fields:
  "make_or_replace_var cfg nm v = Inr cfg' \<Longrightarrow>
   skipcnt cfg' = skipcnt cfg \<and> skip cfg' = skip cfg \<and> srate cfg' = srate cfg \<and>
   source_id cfg' = source_id cfg"
  by (auto simp: make_or_replace_var_def split: ac_type.splits)

text \<open>
  C4. For each of the five type ids of the switch and every number of entries \<open>n\<close>, the
  factory stores under the name an adapter of that type whose stream has \<open>n\<close> channels;
  for \<open>MHA_AC_MHACOMPLEX\<close> the channel count is the 32-bit product \<open>2 * n\<close>, that is
  \<open>2 * n\<close> modulo \<open>2 ^ 32\<close>, which is \<open>2 * n\<close> for every \<open>n\<close> below \<open>2 ^ 31\<close>. For every
  other type id the factory fails with the unknown-type error.
\<close>

theorem make_or_replace_var_channel_count:
  "(data_type v = MHA_AC_OTHER w \<longrightarrow>
      make_or_replace_var cfg nm v = Inl (Unknown_data_type w)) \<and>
   ((\<forall>u. data_type v \<noteq> MHA_AC_OTHER u) \<longrightarrow>
      (\<exists>cfg' sv. make_or_replace_var cfg nm v = Inr cfg' \<and> adapter cfg' nm = Some sv \<and>
         var_data_type sv = data_type v \<and>
         (data_type v \<noteq> MHA_AC_MHACOMPLEX \<longrightarrow>
            channel_count (info sv) = num_entries v \<and>
            unat (channel_count (info sv)) = unat (num_entries v)) \<and>
         (data_type v = MHA_AC_MHACOMPLEX \<longrightarrow>
            channel_count (info sv) = 2 * num_entries v \<and>
            unat (channel_count (info sv)) = (2 * unat (num_entries v)) mod 2 ^ 32 \<and>
            (unat (num_entries v) < 2 ^ 31 \<longrightarrow>
               unat (channel_count (info sv)) = 2 * unat (num_entries v)))))"
proof (intro conjI impI)
  assume "data_type v = MHA_AC_OTHER w"
  then show "make_or_replace_var cfg nm v = Inl (Unknown_data_type w)"
    by (simp add: make_or_replace_var_Inl)
next
  assume has_case: "\<forall>u. data_type v \<noteq> MHA_AC_OTHER u"
  have "\<not> (\<exists>e. make_or_replace_var cfg nm v = Inl e)"
    using has_case by (simp add: make_or_replace_var_Inl)
  then obtain cfg' where built: "make_or_replace_var cfg nm v = Inr cfg'"
    by (cases "make_or_replace_var cfg nm v") auto
  from make_or_replace_var_adapter [OF built] obtain sv where
    sv: "adapter cfg' nm = Some sv" "var_data_type sv = data_type v"
      "channel_count (info sv) =
         (if data_type v = MHA_AC_MHACOMPLEX then 2 * num_entries v else num_entries v)"
    by blast
  have plain: "data_type v \<noteq> MHA_AC_MHACOMPLEX \<longrightarrow>
      channel_count (info sv) = num_entries v \<and>
      unat (channel_count (info sv)) = unat (num_entries v)"
    by (simp add: sv(3))
  have doubled: "data_type v = MHA_AC_MHACOMPLEX \<longrightarrow>
      channel_count (info sv) = 2 * num_entries v \<and>
      unat (channel_count (info sv)) = (2 * unat (num_entries v)) mod 2 ^ 32 \<and>
      (unat (num_entries v) < 2 ^ 31 \<longrightarrow>
         unat (channel_count (info sv)) = 2 * unat (num_entries v))"
    by (simp add: sv(3) unat_word_ariths)
  from built sv(1,2) plain doubled
  show "\<exists>cfg' sv. make_or_replace_var cfg nm v = Inr cfg' \<and> adapter cfg' nm = Some sv \<and>
      var_data_type sv = data_type v \<and>
      (data_type v \<noteq> MHA_AC_MHACOMPLEX \<longrightarrow>
         channel_count (info sv) = num_entries v \<and>
         unat (channel_count (info sv)) = unat (num_entries v)) \<and>
      (data_type v = MHA_AC_MHACOMPLEX \<longrightarrow>
         channel_count (info sv) = 2 * num_entries v \<and>
         unat (channel_count (info sv)) = (2 * unat (num_entries v)) mod 2 ^ 32 \<and>
         (unat (num_entries v) < 2 ^ 31 \<longrightarrow>
            unat (channel_count (info sv)) = 2 * unat (num_entries v)))"
    by blast
qed

theorem make_or_replace_var_channel_count_witness:
  "make_or_replace_var
      \<lparr>varlist = [], skipcnt = 0, skip = 0, srate = (), source_id = ''id''\<rparr> ''vec''
      \<lparr>data_type = MHA_AC_OTHER 51, num_entries = 4, stride = 1, data = 64\<rparr>
     = Inl (Unknown_data_type 51) \<and>
   (\<exists>cfg' sv. make_or_replace_var
        \<lparr>varlist = [], skipcnt = 0, skip = 0, srate = (), source_id = ''id''\<rparr> ''spec''
        \<lparr>data_type = MHA_AC_MHACOMPLEX, num_entries = 3, stride = 1, data = 64\<rparr> = Inr cfg' \<and>
      adapter cfg' ''spec'' = Some sv \<and> channel_count (info sv) = 6)"
  using make_or_replace_var_channel_count
      [where v = "\<lparr>data_type = MHA_AC_OTHER 51, num_entries = 4, stride = 1, data = 64\<rparr>"
         and w = 51 and nm = "''vec''"
         and cfg = "\<lparr>varlist = [], skipcnt = 0, skip = 0, srate = (), source_id = ''id''\<rparr>"]
    make_or_replace_var_channel_count
      [where v = "\<lparr>data_type = MHA_AC_MHACOMPLEX, num_entries = 3, stride = 1, data = 64\<rparr>"
         and nm = "''spec''"
         and cfg = "\<lparr>varlist = [], skipcnt = 0, skip = 0, srate = (), source_id = ''id''\<rparr>"]
  by auto

text \<open>
  A complex variable of \<open>2 ^ 31\<close> entries: the product wraps and the stream has no channel.
\<close>

theorem factory_channel_count_wraps:
  "make_or_replace_var
      \<lparr>varlist = [], skipcnt = 0, skip = 0, srate = (), source_id = ''id''\<rparr> ''spec''
      \<lparr>data_type = MHA_AC_MHACOMPLEX, num_entries = 2147483648, stride = 1, data = 64\<rparr>
     = Inr (spec_cfg 0 64) \<and>
   adapter (spec_cfg 0 64) ''spec'' =
     Some (save_var_t_complex
       \<lparr>stream_name = ''spec'', stream_type = ''MHA_AC_COMPLEX'', channel_count = 0,
        nominal_srate = (), channel_format = cf_float32, stream_source_id = ''id''\<rparr> 64) \<and>
   2 * unat (2147483648 :: 32 word) = 4294967296"
  by (simp add: run_defs)

section \<open>The complex bridge\<close>

lemma map_upt_double:
  "map f [0..<2 * n] = concat (map (\<lambda>i. [f (2 * i), f (2 * i + 1)]) [0..<n])"
  by (induction n) simp_all

lemma interleave_read_complex:
  "interleave (read_complex mem buf n) = map (\<lambda>j. mem (buf + j)) [0..<2 * n]"
  by (simp add: interleave_def read_complex_def re_addr_def im_addr_def
        map_upt_double [where f = "\<lambda>j. mem (buf + j)"] comp_def)

text \<open>
  C5. The adapter that the factory builds for a variable of type \<open>MHA_AC_MHACOMPLEX\<close> with
  \<open>n\<close> entries below \<open>2 ^ 31\<close> sends, as its one sample, the \<open>2 * n\<close> scalars
  \<open>re\<^sub>0, im\<^sub>0, re\<^sub>1, im\<^sub>1, \<dots>\<close> of the complex values the buffer holds, in this order.
  For any \<open>n\<close> the sample is the first scalars of this sequence, as many as the stream
  has channels: the 32-bit product \<open>2 * n\<close>.
\<close>

theorem send_frame_complex_interleaved:
  assumes "data_type v = MHA_AC_MHACOMPLEX"
  shows "\<exists>cfg' sv. make_or_replace_var cfg nm v = Inr cfg' \<and> adapter cfg' nm = Some sv \<and>
           send_frame mem sv =
             take (unat (2 * num_entries v))
               (interleave (read_complex mem (data v) (unat (num_entries v)))) \<and>
           (unat (num_entries v) < 2 ^ 31 \<longrightarrow>
              send_frame mem sv =
                interleave (read_complex mem (data v) (unat (num_entries v))) \<and>
              length (send_frame mem sv) = 2 * unat (num_entries v))"
proof -
  let ?n = "unat (num_entries v)" and ?c = "unat (2 * num_entries v)"
  have le: "?c \<le> 2 * ?n" by (simp add: unat_word_ariths)
  have cnt: "?n < 2 ^ 31 \<Longrightarrow> ?c = 2 * ?n" by (simp add: unat_word_ariths)
  have "take ?c (map (\<lambda>j. mem (data v + j)) [0..<2 * ?n]) = map (\<lambda>j. mem (data v + j)) [0..<?c]"
    using le by (simp add: take_map)
  then have pushed_all: "push_sample \<lparr>stream_name = nm, stream_type = ''MHA_AC_COMPLEX'',
        channel_count = 2 * num_entries v, nominal_srate = srate cfg,
        channel_format = cf_float32, stream_source_id = source_id cfg\<rparr> mem (data v) =
      take ?c (interleave (read_complex mem (data v) ?n))"
    by (simp add: push_sample_def interleave_read_complex)
  have len: "length (interleave (read_complex mem (data v) ?n)) = 2 * ?n"
    by (simp add: interleave_read_complex)
  from assms pushed_all cnt len show ?thesis
    by (auto simp: make_or_replace_var_def adapter_def map_of_map_assign_same re_addr_def)
qed

theorem send_frame_complex_interleaved_witness:
  "\<exists>cfg' sv. make_or_replace_var
        \<lparr>varlist = [], skipcnt = 0, skip = 0, srate = (), source_id = ''id''\<rparr> ''spec''
        \<lparr>data_type = MHA_AC_MHACOMPLEX, num_entries = 3, stride = 1, data = 64\<rparr> = Inr cfg' \<and>
      adapter cfg' ''spec'' = Some sv \<and>
      read_complex (\<lambda>a. a - 63) 64 3 = [(1, 2), (3, 4), (5, 6 :: nat)] \<and>
      send_frame (\<lambda>a. a - 63) sv = [1, 2, 3, 4, 5, 6 :: nat]"
proof -
  have rd: "read_complex (\<lambda>a. a - 63) 64 3 = [(1, 2), (3, 4), (5, 6 :: nat)]"
    by (simp add: read_complex_def re_addr_def im_addr_def upt_rec)
  show ?thesis
    using send_frame_complex_interleaved
      [where v = "\<lparr>data_type = MHA_AC_MHACOMPLEX, num_entries = 3, stride = 1, data = 64\<rparr>"
         and nm = "''spec''" and mem = "\<lambda>a. a - 63"
         and cfg = "\<lparr>varlist = [], skipcnt = 0, skip = 0, srate = (), source_id = ''id''\<rparr>"]
    by (auto simp: rd interleave_def)
qed

text \<open>
  The registry of a complex variable of \<open>2 ^ 31\<close> entries: the buffer holds \<open>2 ^ 32\<close>
  scalars and the sample that a cycle pushes is empty.
\<close>

theorem send_frame_complex_wraps:
  "new_cfg_t (spec_ac 2147483648 64) 0 ''id'' [''spec''] () = Inr (spec_cfg 0 64) \<and>
   cfg_process (spec_ac 2147483648 64) (id :: nat \<Rightarrow> nat) (spec_cfg 0 64) =
     (None, spec_cfg 0 64, [Push_sample ''spec'' []]) \<and>
   length (interleave (read_complex (id :: nat \<Rightarrow> nat) 64 (unat (2147483648 :: 32 word))))
     = 4294967296"
proof -
  have "length (interleave (read_complex (id :: nat \<Rightarrow> nat) 64 (unat (2147483648 :: 32 word))))
     = 4294967296"
    by (simp add: interleave_read_complex)
  then show ?thesis by (simp add: run_defs)
qed

section \<open>Facts about reconciliation\<close>

lemma update_var_fields:
  "update_var ac cfg nm = Inr (cfg', ev) \<Longrightarrow>
   skipcnt cfg' = skipcnt cfg \<and> skip cfg' = skip cfg \<and> srate cfg' = srate cfg \<and>
   source_id cfg' = source_id cfg"
  by (auto simp: update_var_def dest: make_or_replace_var_fields
           split: option.splits if_splits sum.splits)

lemma update_var_keep:
  assumes "update_var ac cfg nm = Inr (cfg', ev)"
  shows "map fst (varlist cfg') = map fst (varlist cfg)"
proof (cases "adapter cfg nm")
  case None
  with assms show ?thesis
    by (auto simp: update_var_def split: option.splits)
next
  case (Some sv)
  then have key: "nm \<in> set (map fst (varlist cfg))" by (rule adapter_Some_key)
  have same: "map fst (map_assign nm x (varlist cfg)) = map fst (varlist cfg)" for x
    using key by (rule map_fst_map_assign_present)
  from assms Some show ?thesis
    by (auto simp: update_var_def same dest: make_or_replace_var_keep [OF _ key]
             split: option.splits if_splits sum.splits)
qed

lemma update_var_no_push:
  "update_var ac cfg nm = Inr (cfg', ev) \<Longrightarrow> filter is_push ev = []"
  by (auto simp: update_var_def split: option.splits if_splits sum.splits)

text \<open>What the loop keeps: the keys in their order, the throttle, and a trace without pushes.\<close>

lemma update_loop_keep:
  "update_loop ac nms cfg evs = (e, cfg', evs') \<Longrightarrow>
   map fst (varlist cfg') = map fst (varlist cfg) \<and>
   skipcnt cfg' = skipcnt cfg \<and> skip cfg' = skip cfg \<and> srate cfg' = srate cfg \<and>
   source_id cfg' = source_id cfg \<and>
   (filter is_push evs = [] \<longrightarrow> filter is_push evs' = [])"
proof (induction nms arbitrary: cfg evs)
  case Nil
  then show ?case by simp
next
  case (Cons nm nms)
  show ?case
  proof (cases "update_var ac cfg nm :: error + ('a cfg_t \<times> 'b event list)")
    case (Inl err)
    with Cons.prems show ?thesis by simp
  next
    case (Inr r)
    obtain cfg1 ev where r: "r = (cfg1, ev)" by (cases r)
    from Cons.prems Inr r have "update_loop ac nms cfg1 (evs @ ev) = (e, cfg', evs')" by simp
    from Cons.IH [OF this] update_var_keep [of ac cfg nm cfg1 ev]
      update_var_fields [of ac cfg nm cfg1 ev] update_var_no_push [of ac cfg nm cfg1 ev] Inr r
    show ?thesis by simp
  qed
qed

lemma update_varlist_keep:
  assumes "update_varlist ac cfg = (e, cfg', evs)"
  shows "map fst (varlist cfg') = map fst (varlist cfg)"
    and "skipcnt cfg' = skipcnt cfg" and "skip cfg' = skip cfg"
    and "srate cfg' = srate cfg" and "source_id cfg' = source_id cfg"
    and "filter is_push evs = []"
  using update_loop_keep [OF assms [unfolded update_varlist_def]] by simp_all

lemma filter_send_all: "filter is_push (send_all mem cfg) = send_all mem cfg"
  by (simp add: send_all_def filter_id_conv split_beta)

lemma filter_not_send_all: "filter (\<lambda>e. \<not> is_push e) (send_all mem cfg) = []"
  by (simp add: send_all_def filter_empty_conv split_beta)

lemma cfg_init_loop_fields:
  "cfg_init_loop ac nms cfg = Inr cfg' \<Longrightarrow>
   skipcnt cfg' = skipcnt cfg \<and> skip cfg' = skip cfg \<and> srate cfg' = srate cfg \<and>
   source_id cfg' = source_id cfg"
proof (induction nms arbitrary: cfg)
  case Nil
  then show ?case by simp
next
  case (Cons nm nms)
  then show ?case
    by (auto split: option.splits sum.splits dest!: make_or_replace_var_fields)
qed

section \<open>The throttle\<close>

text \<open>
  C6. A registry that the constructor returns has \<open>skipcnt = skip\<close>. One call of
  \<^verbatim>\<open>cfg_t::process\<close> first reconciles every entry, whatever the counter is: the events
  of the call that are not pushes are those of \<^verbatim>\<open>update_varlist\<close>, its registry is the
  reconciled one, with the same keys, and its error, if any, is that of reconciliation.
  When reconciliation went through: if the counter is 0, every adapter of the reconciled
  registry pushes one sample and the counter becomes \<open>skip\<close>; otherwise nothing is pushed
  and the counter goes down by one.
\<close>

theorem throttle_state_machine:
  assumes "cfg_process ac mem cfg = (err, cfg', tr)"
    and "update_varlist ac cfg = (uerr, cfg1, evs)"
  shows "(new_cfg_t ac0 k sid names rate = Inr cfg \<longrightarrow> skipcnt cfg = k \<and> skip cfg = k) \<and>
         err = uerr \<and> filter (\<lambda>e. \<not> is_push e) tr = evs \<and> varlist cfg' = varlist cfg1 \<and>
         map fst (varlist cfg') = map fst (varlist cfg) \<and> skip cfg' = skip cfg \<and>
         (uerr = None \<and> skipcnt cfg = 0 \<longrightarrow>
            filter is_push tr =
              map (\<lambda>(nm, sv). Push_sample nm (send_frame mem sv)) (varlist cfg1) \<and>
            skipcnt cfg' = skip cfg) \<and>
         (uerr = None \<and> skipcnt cfg \<noteq> 0 \<longrightarrow>
            filter is_push tr = [] \<and> skipcnt cfg' = skipcnt cfg - 1 \<and>
            unat (skipcnt cfg') + 1 = unat (skipcnt cfg)) \<and>
         (uerr \<noteq> None \<longrightarrow> filter is_push tr = [] \<and> skipcnt cfg' = skipcnt cfg)"
proof -
  note keep = update_varlist_keep [OF assms(2)]
  have nopush: "filter (\<lambda>e. \<not> is_push e) evs = evs"
    using keep(6) by (simp add: filter_id_conv filter_empty_conv)
  have init: "new_cfg_t ac0 k sid names rate = Inr cfg \<longrightarrow> skipcnt cfg = k \<and> skip cfg = k"
    by (auto simp: new_cfg_t_def dest: cfg_init_loop_fields)
  have dec: "skipcnt cfg \<noteq> 0 \<Longrightarrow> unat (skipcnt cfg - 1) + 1 = unat (skipcnt cfg)"
    using unat_gt_0 [of "skipcnt cfg"] by (simp add: unat_minus_one)
  show ?thesis
  proof (cases uerr)
    case None
    with assms keep nopush init dec show ?thesis
      by (auto simp: cfg_process_def send_all_def filter_send_all [unfolded send_all_def]
               filter_not_send_all [unfolded send_all_def] split: if_splits)
  next
    case (Some e)
    with assms keep nopush init show ?thesis
      by (auto simp: cfg_process_def)
  qed
qed

theorem throttle_state_machine_witness:
  "cfg_process level_ac (id :: nat \<Rightarrow> nat) (level_cfg 0 0) =
     (None, level_cfg 0 0, [Push_sample ''level'' [64, 65, 66, 67]]) \<and>
   cfg_process level_ac (id :: nat \<Rightarrow> nat) (level_cfg 1 1) = (None, level_cfg 0 1, []) \<and>
   cfg_process (map_of []) (id :: nat \<Rightarrow> nat) (level_cfg 0 1) =
     (Some (No_such_variable ''level''), level_cfg 0 1, []) \<and>
   skipcnt (level_cfg 0 0) = skip (level_cfg 0 0)"
proof -
  have built: "new_cfg_t level_ac 0 ''id'' [''level''] () = Inr (level_cfg 0 0)"
    by (simp add: run_defs)
  have p0: "cfg_process level_ac (id :: nat \<Rightarrow> nat) (level_cfg 0 0) =
     (None, level_cfg 0 0, [Push_sample ''level'' [64, 65, 66, 67]])"
    by (simp add: run_defs)
  have u0: "update_varlist level_ac (level_cfg 0 0) = (None, level_cfg 0 0, [] :: nat event list)"
    by (simp add: run_defs)
  have p1: "cfg_process level_ac (id :: nat \<Rightarrow> nat) (level_cfg 1 1) = (None, level_cfg 0 1, [])"
    by (simp add: run_defs)
  have u1: "update_varlist level_ac (level_cfg 1 1) = (None, level_cfg 1 1, [] :: nat event list)"
    by (simp add: run_defs)
  have p2: "cfg_process (map_of []) (id :: nat \<Rightarrow> nat) (level_cfg 0 1) =
     (Some (No_such_variable ''level''), level_cfg 0 1, [])"
    by (simp add: run_defs)
  have u2: "update_varlist (map_of []) (level_cfg 0 1) =
     (Some (No_such_variable ''level''), level_cfg 0 1, [] :: nat event list)"
    by (simp add: run_defs)
  from throttle_state_machine
      [OF p0 u0, where ?ac0.0 = level_ac and k = 0 and sid = "''id''" and names = "[''level'']"
         and rate = "()"]
    throttle_state_machine
      [OF p1 u1, where ?ac0.0 = level_ac and k = 1 and sid = "''id''" and names = "[''level'']"
         and rate = "()"]
    throttle_state_machine
      [OF p2 u2, where ?ac0.0 = level_ac and k = 0 and sid = "''id''" and names = "[''level'']"
         and rate = "()"]
    built p0 p1 p2
  show ?thesis by simp
qed

section \<open>The period of the throttle\<close>

lemma pushed_names_no_push: "filter is_push evs = [] \<Longrightarrow> pushed_names evs = []"
proof (induction evs)
  case Nil
  then show ?case by (simp add: pushed_names_def)
next
  case (Cons e evs)
  then show ?case by (cases e) (simp_all add: pushed_names_def)
qed

lemma pushed_names_send_all: "pushed_names (send_all mem cfg) = map fst (varlist cfg)"
proof -
  have "concat (map pushed (map (\<lambda>(nm, sv). Push_sample nm (f sv)) m)) = map fst m"
    for f :: "'c \<Rightarrow> 'a list" and m :: "(string \<times> 'c) list"
    by (induction m) auto
  then show ?thesis by (simp add: pushed_names_def send_all_def)
qed

lemma pushed_names_append: "pushed_names (xs @ ys) = pushed_names xs @ pushed_names ys"
  by (simp add: pushed_names_def)

lemma cfg_process_step:
  assumes "cfg_process ac mem cfg = (None, cfg', tr)"
  shows "map fst (varlist cfg') = map fst (varlist cfg) \<and> skip cfg' = skip cfg \<and>
         (skipcnt cfg = 0 \<longrightarrow> pushed_names tr = map fst (varlist cfg) \<and> skipcnt cfg' = skip cfg) \<and>
         (skipcnt cfg \<noteq> 0 \<longrightarrow> pushed_names tr = [] \<and> skipcnt cfg' = skipcnt cfg - 1)"
proof -
  obtain uerr cfg1 evs where u: "update_varlist ac cfg = (uerr, cfg1, evs :: 'b event list)"
    by (cases "update_varlist ac cfg :: error option \<times> 'a cfg_t \<times> 'b event list")
  note keep = update_varlist_keep [OF u]
  have quiet: "pushed_names evs = []" using keep(6) by (rule pushed_names_no_push)
  from assms u have none: "uerr = None" by (cases uerr) (auto simp: cfg_process_def)
  from assms u none keep quiet show ?thesis
    by (auto simp: cfg_process_def pushed_names_append pushed_names_send_all split: if_splits)
qed

lemma run_cycles_length: "length (run_cycles ins cfg) = length ins"
  by (induction ins arbitrary: cfg) (auto split: prod.splits)

text \<open>
  With the counter at \<open>c \<le> k\<close>, the cycles that send are those whose number \<open>i\<close> has
  \<open>(i + (k - c)) mod (k + 1) = k\<close>.
\<close>

lemma run_cycles_sends:
  assumes "skipcnt cfg \<le> skip cfg"
    and "\<forall>r \<in> set (run_cycles ins cfg). fst r = None"
    and "i < length ins"
  shows "pushed_names (snd (snd (run_cycles ins cfg ! i))) =
           (if (i + (unat (skip cfg) - unat (skipcnt cfg))) mod (unat (skip cfg) + 1)
                 = unat (skip cfg)
            then map fst (varlist cfg) else [])"
  using assms
proof (induction ins arbitrary: cfg i)
  case Nil
  then show ?case by simp
next
  case (Cons inp ins)
  obtain ac mem where inp: "inp = (ac, mem)" by (cases inp)
  obtain e cfg' tr where p: "cfg_process ac mem cfg = (e, cfg', tr)"
    by (cases "cfg_process ac mem cfg")
  from Cons.prems(2) inp p have e: "e = None" by simp
  note step = cfg_process_step [OF p [unfolded e]]
  let ?k = "unat (skip cfg)" and ?c = "unat (skipcnt cfg)"
  from Cons.prems(1) have ck: "?c \<le> ?k" by (simp add: word_le_nat_alt)
  have c0: "?c = 0 \<longleftrightarrow> skipcnt cfg = 0" by (simp add: unat_eq_0)
  show ?case
  proof (cases i)
    case 0
    have "(?k - ?c) mod (?k + 1) = ?k \<longleftrightarrow> ?c = 0"
      using ck by (cases "?c = 0") auto
    with 0 inp p step c0 show ?thesis by auto
  next
    case (Suc j)
    have c': "unat (skipcnt cfg') = (if ?c = 0 then ?k else ?c - 1)"
      using step c0 by (auto simp: unat_minus_one)
    have le': "skipcnt cfg' \<le> skip cfg'"
    proof -
      have "unat (skipcnt cfg') \<le> ?k" using ck c' by (cases "?c = 0") simp_all
      with step show ?thesis by (simp add: word_le_nat_alt)
    qed
    have ok': "\<forall>r \<in> set (run_cycles ins cfg'). fst r = None"
      using Cons.prems(2) inp p by simp
    have j: "j < length ins" using Cons.prems(3) Suc by simp
    note IH = Cons.IH [OF le' ok' j]
    have "(j + (?k - unat (skipcnt cfg'))) mod (?k + 1) = ?k \<longleftrightarrow>
          (Suc j + (?k - ?c)) mod (?k + 1) = ?k"
    proof (cases "?c = 0")
      case True
      have "(Suc j + ?k) mod (?k + 1) = (j + (?k + 1)) mod (?k + 1)" by simp
      also have "\<dots> = j mod (?k + 1)" by (rule mod_add_self2)
      finally show ?thesis using True by (simp add: c')
    next
      case False
      with ck have "j + (?k - (?c - 1)) = Suc j + (?k - ?c)" by arith
      with False show ?thesis by (simp add: c')
    qed
    with IH Suc inp p step show ?thesis by simp
  qed
qed

text \<open>
  C2. With \<open>skip = k\<close> the counter starts at \<open>k\<close>, so the first \<open>k\<close> cycles send nothing and
  cycle \<open>k\<close> is the first to send: over cycles whose reconciliation raises no error,
  cycle \<open>i\<close> pushes one sample for every monitored name exactly when
  \<open>i mod (k + 1) = k\<close>, and nothing otherwise. Cycle 0 sends only for \<open>k = 0\<close>.
\<close>

theorem throttle_send_cycles:
  assumes "new_cfg_t ac0 k sid names rate = Inr cfg"
    and "\<forall>r \<in> set (run_cycles ins cfg). fst r = None"
    and "i < length ins"
  shows "pushed_names (snd (snd (run_cycles ins cfg ! i))) =
           (if i mod (unat k + 1) = unat k then map fst (varlist cfg) else [])"
proof -
  from assms(1) have fresh: "skipcnt cfg = k" "skip cfg = k"
    by (auto simp: new_cfg_t_def dest: cfg_init_loop_fields)
  then have "skipcnt cfg \<le> skip cfg" by simp
  from run_cycles_sends [OF this assms(2,3)] fresh show ?thesis by simp
qed

theorem throttle_send_cycles_witness:
  "pushed_names (snd (snd (run_cycles
      [(level_ac, id :: nat \<Rightarrow> nat), (level_ac, id), (level_ac, id)] (level_cfg 1 1) ! 1)))
     = [''level'']"
proof -
  have built: "new_cfg_t level_ac 1 ''id'' [''level''] () = Inr (level_cfg 1 1)"
    by (simp add: run_defs)
  have quiet: "\<forall>r \<in> set (run_cycles
      [(level_ac, id :: nat \<Rightarrow> nat), (level_ac, id), (level_ac, id)] (level_cfg 1 1)).
      fst r = None"
    by (simp add: run_defs)
  from throttle_send_cycles [OF built quiet, of 1] show ?thesis by (simp add: level_cfg_def)
qed

text \<open>
  The first cycles of the registry built with \<open>skip = 1\<close> for \<open>level\<close>: cycle 0 pushes
  nothing, cycle 1 pushes the frame.
\<close>

theorem throttle_first_cycle_skips:
  "new_cfg_t level_ac 1 ''id'' [''level''] () = Inr (level_cfg 1 1) \<and>
   cfg_process level_ac (id :: nat \<Rightarrow> nat) (level_cfg 1 1) = (None, level_cfg 0 1, []) \<and>
   cfg_process level_ac (id :: nat \<Rightarrow> nat) (level_cfg 0 1) =
     (None, level_cfg 1 1, [Push_sample ''level'' [64, 65, 66, 67]])"
  by (simp add: run_defs)

section \<open>A registry in agreement with the AC space\<close>

text \<open>
  The loop of \<^verbatim>\<open>update_varlist\<close> looks up keys of the registry only, so the lookup of the
  adapter finds one. Where every adapter agrees with its variable, reconciliation changes
  nothing and has no events; a registry is in this state when its constructor returns.
\<close>

lemma adapter_of_key:
  "nm \<in> set (map fst (varlist cfg)) \<Longrightarrow> \<exists>sv. adapter cfg nm = Some sv"
  by (cases "adapter cfg nm") (auto simp: adapter_def map_of_eq_None_iff)

lemma map_of_replace_other:
  "k' \<noteq> k \<Longrightarrow>
   map_of (map (\<lambda>(k', v'). if k' = k then (k', v) else (k', v')) m) k' = map_of m k'"
  by (induction m) auto

lemma map_of_insort_other: "k' \<noteq> k \<Longrightarrow> map_of (insort_key fst (k, v) m) k' = map_of m k'"
  by (induction m) auto

lemma map_of_map_assign_other: "k' \<noteq> k \<Longrightarrow> map_of (map_assign k v m) k' = map_of m k'"
  by (simp add: map_assign_def map_of_replace_other map_of_insort_other)

lemma keys_map_assign: "fst ` set (map_assign k v m) = insert k (fst ` set m)"
proof (cases "k \<in> set (map fst m)")
  case True
  from map_fst_map_assign_present [OF this, of v]
  have "set (map fst (map_assign k v m)) = set (map fst m)" by simp
  with True show ?thesis by auto
next
  case False
  then show ?thesis by (simp add: map_assign_def set_insort_key)
qed

lemma make_or_replace_var_Inr:
  "make_or_replace_var cfg nm v = Inr cfg' \<Longrightarrow>
   \<exists>sv. cfg' = cfg\<lparr>varlist := map_assign nm sv (varlist cfg)\<rparr> \<and>
        nominal_srate (info sv) = srate cfg \<and> stream_source_id (info sv) = source_id cfg \<and>
        stream_name (info sv) = nm"
  by (auto simp: make_or_replace_var_def split: ac_type.splits)

lemma make_or_replace_var_keys:
  assumes "make_or_replace_var cfg nm v = Inr cfg'"
  shows "fst ` set (varlist cfg') = insert nm (fst ` set (varlist cfg))"
proof -
  from make_or_replace_var_Inr [OF assms] obtain sv where
    "cfg' = cfg\<lparr>varlist := map_assign nm sv (varlist cfg)\<rparr>" by blast
  then show ?thesis by (simp add: keys_map_assign)
qed

lemma update_var_in_sync:
  "in_sync ac cfg nm \<Longrightarrow> update_var ac cfg nm = Inr (cfg, [])"
  by (auto simp: in_sync_def update_var_def split: option.splits)

lemma update_loop_in_sync:
  "\<forall>nm \<in> set nms. in_sync ac cfg nm \<Longrightarrow> update_loop ac nms cfg evs = (None, cfg, evs)"
  by (induction nms arbitrary: evs) (simp_all add: update_var_in_sync)

lemma update_varlist_in_sync:
  "\<forall>nm \<in> set (map fst (varlist cfg)). in_sync ac cfg nm \<Longrightarrow>
   update_varlist ac cfg = (None, cfg, [])"
  unfolding update_varlist_def by (rule update_loop_in_sync)

lemma make_or_replace_var_in_sync:
  assumes "make_or_replace_var cfg nm v = Inr cfg'" and "ac nm = Some v"
    and "\<forall>k \<in> set (map fst (varlist cfg)). in_sync ac cfg k"
  shows "\<forall>k \<in> set (map fst (varlist cfg')). in_sync ac cfg' k"
proof
  fix k assume k: "k \<in> set (map fst (varlist cfg'))"
  from make_or_replace_var_adapter [OF assms(1)] obtain sv where
    sv: "adapter cfg' nm = Some sv"
      "channel_count (info sv) =
        (if data_type v = MHA_AC_MHACOMPLEX then 2 * num_entries v else num_entries v)"
      "var_data_type sv = data_type v" "get_buf_address sv = data v"
    by blast
  show "in_sync ac cfg' k"
  proof (cases "k = nm")
    case True
    with sv assms(2) show ?thesis by (simp add: in_sync_def mult.commute)
  next
    case False
    from assms(1) have other: "adapter cfg' k = adapter cfg k"
      using False
      by (auto simp: make_or_replace_var_def adapter_def map_of_map_assign_other
               split: ac_type.splits)
    from make_or_replace_var_keys [OF assms(1)] k False
    have "k \<in> set (map fst (varlist cfg))" by auto
    with assms(3) have "in_sync ac cfg k" by blast
    with other show ?thesis by (simp add: in_sync_def)
  qed
qed

lemma cfg_init_loop_in_sync:
  assumes "cfg_init_loop ac nms cfg = Inr cfg'"
    and "\<forall>k \<in> set (map fst (varlist cfg)). in_sync ac cfg k"
  shows "\<forall>k \<in> set (map fst (varlist cfg')). in_sync ac cfg' k"
  using assms
proof (induction nms arbitrary: cfg)
  case Nil
  then show ?case by simp
next
  case (Cons nm nms)
  from Cons.prems(1) obtain v cfg1 where
    v: "ac nm = Some v" and m: "make_or_replace_var cfg nm v = Inr cfg1"
    and rest: "cfg_init_loop ac nms cfg1 = Inr cfg'"
    by (auto split: option.splits sum.splits)
  from make_or_replace_var_in_sync [OF m v Cons.prems(2)]
  show ?case by (rule Cons.IH [OF rest])
qed

lemma fresh_registry_fixpoint:
  assumes "new_cfg_t ac k sid names rate = Inr cfg"
  shows "update_varlist ac cfg = (None, cfg, [])"
proof -
  have "\<forall>k \<in> set (map fst (varlist cfg)). in_sync ac cfg k"
    using assms unfolding new_cfg_t_def by (rule cfg_init_loop_in_sync) simp
  then show ?thesis by (rule update_varlist_in_sync)
qed

text \<open>
  The branch of \<^verbatim>\<open>update_varlist\<close> that only repoints the adapter is taken when the channel
  count of the adapter equals \<^verbatim>\<open>num_entries\<close>, which is the shape of an adapter of the four
  types that are not complex.
\<close>

lemma update_var_address_only:
  assumes "ac nm = Some v" and "adapter cfg nm = Some sv"
    and "var_data_type sv = data_type v" and "channel_count (info sv) = num_entries v"
    and "get_buf_address sv \<noteq> data v"
  shows "update_var ac cfg nm =
           Inr (cfg\<lparr>varlist := map_assign nm (set_buf_address sv (data v)) (varlist cfg)\<rparr>,
                [Set_buf_address nm (data v)])"
  using assms by (simp add: update_var_def)

section \<open>Reconciliation of a complex variable\<close>

text \<open>
  C1. A variable of type \<open>MHA_AC_MHACOMPLEX\<close> with three entries moves from address 64 to
  address 128 and changes nothing else. Reconciliation neither calls
  \<^verbatim>\<open>set_buf_address\<close> nor replaces the adapter: the adapter keeps the address 64.
\<close>

theorem complex_address_change_is_missed:
  "new_cfg_t (spec_ac 3 64) 0 ''id'' [''spec''] () = Inr (spec_cfg 6 64) \<and>
   update_varlist (spec_ac 3 128) (spec_cfg 6 64) = (None, spec_cfg 6 64, [] :: nat event list)"
  by (simp add: run_defs)

text \<open>
  C7. A variable of type \<open>MHA_AC_MHACOMPLEX\<close> grows from one entry to two and moves from
  address 64 to address 128. The first pass over the new descriptor only calls
  \<^verbatim>\<open>set_buf_address\<close>; a second pass over the same descriptor replaces the adapter.
\<close>

theorem second_pass_rebuilds:
  "new_cfg_t (spec_ac 1 64) 0 ''id'' [''spec''] () = Inr (spec_cfg 2 64) \<and>
   update_varlist (spec_ac 2 128) (spec_cfg 2 64) =
     (None, spec_cfg 2 128, [Set_buf_address ''spec'' 128 :: nat event]) \<and>
   update_varlist (spec_ac 2 128) (spec_cfg 2 128) =
     (None, spec_cfg 4 128, [Replaced ''spec'' :: nat event])"
  by (simp add: run_defs)

section \<open>A monitored variable that is gone\<close>

lemma update_var_Inl:
  "update_var ac cfg nm = (Inl e :: error + ('r cfg_t \<times> 'v event list)) \<Longrightarrow>
   (ac nm = None \<and> e = No_such_variable nm) \<or>
   (\<exists>v w. ac nm = Some v \<and> data_type v = MHA_AC_OTHER w \<and> e = Unknown_data_type w)"
  by (auto simp: update_var_def make_or_replace_var_Inl split: option.splits if_splits sum.splits)

lemma update_var_absent:
  "ac nm = None \<Longrightarrow>
   update_var ac cfg nm = (Inl (No_such_variable nm) :: error + ('r cfg_t \<times> 'v event list))"
  by (simp add: update_var_def)

lemma update_loop_absent:
  assumes "nm \<in> set nms" and "ac nm = None"
  shows "\<exists>e. fst (update_loop ac nms cfg evs) = Some e"
  using assms(1)
proof (induction nms arbitrary: cfg evs)
  case Nil
  then show ?case by simp
next
  case (Cons k nms)
  show ?case
  proof (cases "update_var ac cfg k :: error + ('a cfg_t \<times> 'b event list)")
    case (Inl err)
    then show ?thesis by simp
  next
    case (Inr r)
    obtain cfg1 ev where r: "r = (cfg1, ev)" by (cases r)
    from Inr have "k \<noteq> nm"
      using update_var_absent [where ac = ac and nm = nm and cfg = cfg and 'v = 'b, OF assms(2)]
      by auto
    with Cons.prems have "nm \<in> set nms" by simp
    from Cons.IH [OF this] Inr r show ?thesis by simp
  qed
qed

lemma supported_iff: "supported t \<longleftrightarrow> (\<forall>w. t \<noteq> MHA_AC_OTHER w)"
  by (cases t) (simp_all add: supported_def)

lemma var_data_type_set_buf_address: "var_data_type (set_buf_address sv p) = var_data_type sv"
  by (cases sv) simp_all

lemma types_inv_assign:
  assumes "types_inv cfg" and "supported (var_data_type sv)"
  shows "types_inv (cfg\<lparr>varlist := map_assign nm sv (varlist cfg)\<rparr>)"
  using assms set_map_assign_subset [of nm sv "varlist cfg"]
  by (auto simp: types_inv_def list_all_iff)

lemma make_or_replace_var_types:
  assumes "make_or_replace_var cfg nm v = Inr cfg'" and "types_inv cfg"
  shows "types_inv cfg'"
proof -
  have sup: "supported (data_type v)"
    using assms(1) by (auto simp: make_or_replace_var_def supported_def split: ac_type.splits)
  from assms(1) obtain sv where
    "cfg' = cfg\<lparr>varlist := map_assign nm sv (varlist cfg)\<rparr>" "var_data_type sv = data_type v"
    by (auto simp: make_or_replace_var_def split: ac_type.splits)
  with assms(2) sup show ?thesis by (simp add: types_inv_assign)
qed

lemma update_var_types:
  assumes "update_var ac cfg nm = Inr (cfg', ev)" and "types_inv cfg"
  shows "types_inv cfg'"
proof (cases "adapter cfg nm")
  case None
  with assms show ?thesis by (auto simp: update_var_def split: option.splits)
next
  case (Some sv)
  then have "(nm, sv) \<in> set (varlist cfg)" by (auto simp: adapter_def dest: map_of_SomeD)
  with assms(2) have "supported (var_data_type sv)"
    by (auto simp: types_inv_def list_all_iff)
  then have "types_inv (cfg\<lparr>varlist := map_assign nm (set_buf_address sv p) (varlist cfg)\<rparr>)" for p
    using assms(2) by (intro types_inv_assign) (simp_all add: var_data_type_set_buf_address)
  with assms Some show ?thesis
    by (auto simp: update_var_def dest: make_or_replace_var_types
             split: option.splits if_splits sum.splits)
qed

lemma cfg_init_loop_types:
  "cfg_init_loop ac nms cfg = Inr cfg' \<Longrightarrow> types_inv cfg \<Longrightarrow> types_inv cfg'"
proof (induction nms arbitrary: cfg)
  case Nil
  then show ?case by simp
next
  case (Cons nm nms)
  from Cons.prems(1) obtain v cfg1 where
    m: "make_or_replace_var cfg nm v = Inr cfg1" and rest: "cfg_init_loop ac nms cfg1 = Inr cfg'"
    by (auto split: option.splits sum.splits)
  from make_or_replace_var_types [OF m Cons.prems(2)] show ?case by (rule Cons.IH [OF rest])
qed

lemma new_cfg_t_types:
  assumes "new_cfg_t ac k sid names rate = Inr cfg"
  shows "types_inv cfg"
  using assms unfolding new_cfg_t_def by (rule cfg_init_loop_types) (simp add: types_inv_def)

lemma update_var_exact:
  assumes "types_inv cfg" and "nm \<in> set (map fst (varlist cfg))"
  shows "(case update_var ac cfg nm :: error + ('r cfg_t \<times> 'v event list) of
            Inl e \<Rightarrow> Some e | Inr r \<Rightarrow> None) = lookup_error ac nm"
proof (cases "ac nm")
  case None
  then show ?thesis by (simp add: update_var_def lookup_error_def)
next
  case (Some v)
  from adapter_of_key [OF assms(2)] obtain sv where sv: "adapter cfg nm = Some sv" ..
  then have "(nm, sv) \<in> set (varlist cfg)" by (auto simp: adapter_def dest: map_of_SomeD)
  with assms(1) have sup: "supported (var_data_type sv)"
    by (auto simp: types_inv_def list_all_iff)
  show ?thesis
  proof (cases "supported (data_type v)")
    case True
    then have "\<not> (\<exists>e. update_var ac cfg nm = (Inl e :: error + ('r cfg_t \<times> 'v event list)))"
      using Some by (auto dest!: update_var_Inl simp: supported_iff)
    moreover from True have "lookup_error ac nm = None"
      using Some by (auto simp: lookup_error_def supported_def split: ac_type.splits)
    ultimately show ?thesis
      by (cases "update_var ac cfg nm :: error + ('r cfg_t \<times> 'v event list)") auto
  next
    case False
    then obtain w where w: "data_type v = MHA_AC_OTHER w"
      by (auto simp: supported_iff)
    with sup have ne: "var_data_type sv \<noteq> data_type v" by (auto simp: supported_def)
    have "make_or_replace_var cfg nm v = Inl (Unknown_data_type w)"
      using w by (simp add: make_or_replace_var_Inl)
    with Some sv ne w show ?thesis
      by (simp add: update_var_def lookup_error_def)
  qed
qed

lemma update_loop_exact:
  assumes "types_inv cfg" and "set nms \<subseteq> set (map fst (varlist cfg))"
  shows "fst (update_loop ac nms cfg evs) = first_error ac nms"
  using assms
proof (induction nms arbitrary: cfg evs)
  case Nil
  then show ?case by simp
next
  case (Cons k nms)
  from Cons.prems(2) have k: "k \<in> set (map fst (varlist cfg))" by simp
  note ex = update_var_exact [OF Cons.prems(1) k, of ac, where 'v = 'b]
  show ?case
  proof (cases "update_var ac cfg k :: error + ('a cfg_t \<times> 'b event list)")
    case (Inl err)
    with ex have "lookup_error ac k = Some err" by simp
    with Inl show ?thesis by simp
  next
    case (Inr r)
    obtain cfg1 ev where r: "r = (cfg1, ev)" by (cases r)
    from Inr r have t: "types_inv cfg1" using Cons.prems(1) by (auto dest: update_var_types)
    from Inr r have "map fst (varlist cfg1) = map fst (varlist cfg)"
      by (auto dest: update_var_keep)
    with Cons.prems(2) have s: "set nms \<subseteq> set (map fst (varlist cfg1))" by simp
    from Inr ex have "lookup_error ac k = None" by simp
    with Cons.IH [OF t s] Inr r show ?thesis by simp
  qed
qed

lemma update_loop_first_absent_prefix:
  assumes "\<forall>k \<in> set (takeWhile (\<lambda>k. ac k \<noteq> None) nms). \<forall>v. ac k = Some v \<longrightarrow> supported (data_type v)"
    and "find (\<lambda>k. ac k = None) nms = Some nm"
  shows "fst (update_loop ac nms cfg evs) = Some (No_such_variable nm)"
  using assms
proof (induction nms arbitrary: cfg evs)
  case Nil
  then show ?case by simp
next
  case (Cons k nms)
  show ?case
  proof (cases "ac k")
    case None
    with Cons.prems(2) have "k = nm" by simp
    with None show ?thesis by (simp add: update_var_absent)
  next
    case (Some v)
    with Cons.prems(1) have sup: "supported (data_type v)" by simp
    have "\<not> (\<exists>e. update_var ac cfg k = (Inl e :: error + ('a cfg_t \<times> 'b event list)))"
      using Some sup by (auto dest!: update_var_Inl simp: supported_iff)
    then obtain cfg1 ev where r: "update_var ac cfg k = Inr (cfg1, ev :: 'b event list)"
      by (cases "update_var ac cfg k :: error + ('a cfg_t \<times> 'b event list)") auto
    from Cons.prems Some
    have "\<forall>k \<in> set (takeWhile (\<lambda>k. ac k \<noteq> None) nms). \<forall>v. ac k = Some v \<longrightarrow> supported (data_type v)"
      and "find (\<lambda>k. ac k = None) nms = Some nm" by simp_all
    from Cons.IH [OF this] r show ?thesis by simp
  qed
qed

lemma update_loop_error_prefix:
  assumes "fst (update_loop ac nms cfg evs) = Some e"
    and "find (\<lambda>k. ac k = None) nms = Some nm"
  shows "e = No_such_variable nm \<or>
         (\<exists>k \<in> set (takeWhile (\<lambda>k. ac k \<noteq> None) nms). \<exists>v w. ac k = Some v \<and>
             data_type v = MHA_AC_OTHER w \<and> e = Unknown_data_type w)"
  using assms
proof (induction nms arbitrary: cfg evs)
  case Nil
  then show ?case by simp
next
  case (Cons k nms)
  show ?case
  proof (cases "update_var ac cfg k :: error + ('a cfg_t \<times> 'b event list)")
    case (Inl err)
    with Cons.prems(1) have "err = e" by simp
    with update_var_Inl [OF Inl] Cons.prems(2) show ?thesis by auto
  next
    case (Inr r)
    obtain cfg1 ev where r: "r = (cfg1, ev)" by (cases r)
    from Inr have present: "ac k \<noteq> None"
      using update_var_absent [where ac = ac and nm = k and cfg = cfg and 'v = 'b] by auto
    with Cons.prems(2) have f: "find (\<lambda>k. ac k = None) nms = Some nm" by simp
    from Cons.prems(1) Inr r have "fst (update_loop ac nms cfg1 (evs @ ev)) = Some e" by simp
    from Cons.IH [OF this f] present show ?thesis by auto
  qed
qed

text \<open>
  C8. When a monitored name is absent from the AC space, reconciliation does not go
  through: \<^verbatim>\<open>update_varlist\<close> raises an error, \<^verbatim>\<open>cfg_t::process\<close> raises the same error and
  pushes nothing, and the registry keeps all its names. The error is the missing-variable
  error of the first absent name in key order whenever every monitored variable before
  that name has a supported type id; any other error is the unknown-type error of a
  variable before that name. In a registry whose adapters all have supported type ids, as
  the factory builds them, the error is that of the first monitored name, in key order,
  that is absent or has an unsupported type id.
\<close>

theorem absent_variable_is_fatal:
  assumes "nm \<in> set (map fst (varlist cfg))" and "ac nm = None"
  shows "\<exists>e cfg' evs k0. update_varlist ac cfg = (Some e, cfg', evs) \<and>
           cfg_process ac mem cfg = (Some e, cfg', evs) \<and>
           map fst (varlist cfg') = map fst (varlist cfg) \<and>
           find (\<lambda>k. ac k = None) (map fst (varlist cfg)) = Some k0 \<and>
           ((\<forall>k \<in> set (takeWhile (\<lambda>k. ac k \<noteq> None) (map fst (varlist cfg))).
                \<forall>v. ac k = Some v \<longrightarrow> supported (data_type v)) \<longrightarrow>
              e = No_such_variable k0) \<and>
           (e \<noteq> No_such_variable k0 \<longrightarrow>
              (\<exists>k \<in> set (takeWhile (\<lambda>k. ac k \<noteq> None) (map fst (varlist cfg))).
                 \<exists>v w. ac k = Some v \<and> data_type v = MHA_AC_OTHER w \<and>
                   e = Unknown_data_type w)) \<and>
           (types_inv cfg \<longrightarrow> Some e = first_error ac (map fst (varlist cfg)))"
proof -
  let ?keys = "map fst (varlist cfg)"
  obtain uerr cfg' evs where u: "update_varlist ac cfg = (uerr, cfg', evs :: 'b event list)"
    by (cases "update_varlist ac cfg :: error option \<times> 'a cfg_t \<times> 'b event list")
  from update_loop_absent
    [where ac = ac and nm = nm and cfg = cfg and evs = "[] :: 'b event list", OF assms] u
  obtain e where e: "uerr = Some e"
    by (auto simp: update_varlist_def)
  note keep = update_varlist_keep [OF u]
  from u e have p: "cfg_process ac mem cfg = (Some e, cfg', evs)"
    by (simp add: cfg_process_def)
  from u e have loop: "fst (update_loop ac ?keys cfg ([] :: 'b event list)) = Some e"
    by (simp add: update_varlist_def)
  from assms have "\<exists>k. find (\<lambda>k. ac k = None) ?keys = Some k"
    by (cases "find (\<lambda>k. ac k = None) ?keys") (auto simp: find_None_iff)
  then obtain k0 where k0: "find (\<lambda>k. ac k = None) ?keys = Some k0" ..
  have first: "e = No_such_variable k0"
    if sup: "\<forall>k \<in> set (takeWhile (\<lambda>k. ac k \<noteq> None) ?keys).
               \<forall>v. ac k = Some v \<longrightarrow> supported (data_type v)"
    using update_loop_first_absent_prefix
      [where ac = ac and cfg = cfg and evs = "[] :: 'b event list", OF sup k0] loop
    by simp
  note kind = update_loop_error_prefix [OF loop k0]
  have exact: "Some e = first_error ac ?keys" if "types_inv cfg"
    using update_loop_exact [OF that subset_refl, of ac "[] :: 'b event list"] loop by simp
  from u e p keep(1) k0 first kind exact show ?thesis by blast
qed

theorem absent_variable_is_fatal_witness:
  "update_varlist pair_ac_b_gone pair_cfg =
     (Some (No_such_variable ''b''), pair_cfg, [] :: nat event list) \<and>
   cfg_process pair_ac_b_gone (id :: nat \<Rightarrow> nat) pair_cfg =
     (Some (No_such_variable ''b''), pair_cfg, []) \<and>
   types_inv pair_cfg \<and>
   first_error pair_ac_b_gone (map fst (varlist pair_cfg)) = Some (No_such_variable ''b'')"
  using absent_variable_is_fatal
    [where nm = "''b''" and cfg = pair_cfg and ac = pair_ac_b_gone
       and mem = "id :: nat \<Rightarrow> nat"]
  by (auto simp: run_defs pair_cfg_def pair_ac_b_gone_def types_inv_def supported_def
        lookup_error_def)

text \<open>
  The registry of \<open>a\<close> and \<open>b\<close>, after \<open>b\<close> has left the AC space and \<open>a\<close> has taken an
  unsupported type id: the error of reconciliation is the unknown-type error of \<open>a\<close>.
\<close>

theorem absent_variable_other_error:
  "new_cfg_t pair_ac 0 ''id'' [''b'', ''a''] () = Inr pair_cfg \<and>
   pair_ac_later ''b'' = None \<and>
   update_varlist pair_ac_later pair_cfg =
     (Some (Unknown_data_type 51), pair_cfg, [] :: nat event list)"
  by (simp add: run_defs pair_ac_def pair_cfg_def pair_ac_later_def)

section \<open>The activation switch\<close>

text \<open>
  C3. With \<^verbatim>\<open>activate\<close> off, \<^verbatim>\<open>process\<close> runs no reconciliation and emits nothing: the
  call has no events and the registry is the current or the newly published one,
  untouched. The call raises an error in two cases only, both before the switch is read:
  the one-time check fires (first call, \<^verbatim>\<open>rt_strict\<close> on, scheduling parameters unreadable
  or a real-time policy), or the host has no runtime configuration.
\<close>

theorem process_inactive:
  assumes "\<not> activate p"
  shows "\<exists>err p'. process sched published ac mem p = (err, p', []) \<and>
           \<not> activate p' \<and> rt_strict p' = rt_strict p \<and>
           (err = None \<longrightarrow>
              cfg_ptr p' = (case published of Some c \<Rightarrow> Some c | None \<Rightarrow> cfg_ptr p)) \<and>
           (err \<noteq> None \<longrightarrow> cfg_ptr p' = cfg_ptr p) \<and>
           (err \<noteq> None \<longleftrightarrow>
              rt_violation sched p \<or> (published = None \<and> cfg_ptr p = None)) \<and>
           (rt_violation sched p \<longrightarrow>
              err = Some (if fst sched \<noteq> 0 then No_scheduling_parameters
                          else Real_time_thread))"
  using assms
  by (cases sched)
     (auto simp: process_def poll_config_def rt_violation_def Let_def
           split: option.splits sum.splits if_splits)

theorem process_inactive_witness:
  "process (0, SCHED_OTHER) None level_ac (id :: nat \<Rightarrow> nat)
     \<lparr>rt_strict = True, activate = False, is_first_run = True,
      cfg_ptr = Some (level_cfg 0 0)\<rparr>
   = (None,
      \<lparr>rt_strict = True, activate = False, is_first_run = False,
       cfg_ptr = Some (level_cfg 0 0)\<rparr>,
      [])"
  using process_inactive
    [where p = "\<lparr>rt_strict = True, activate = False, is_first_run = True,
                  cfg_ptr = Some (level_cfg 0 0)\<rparr>"
       and sched = "(0, SCHED_OTHER)" and published = None and ac = level_ac
       and mem = "id :: nat \<Rightarrow> nat"]
  by (simp add: process_def Let_def poll_config_def)

text \<open>
  The first call in a thread scheduled under \<open>SCHED_FIFO\<close>, with \<^verbatim>\<open>rt_strict\<close> on and
  \<^verbatim>\<open>activate\<close> off: the call raises the real-time error.
\<close>

theorem process_inactive_raises:
  "process (0, SCHED_FIFO) None level_ac (id :: nat \<Rightarrow> nat)
     \<lparr>rt_strict = True, activate = False, is_first_run = True,
      cfg_ptr = Some (level_cfg 0 0)\<rparr>
   = (Some Real_time_thread,
      \<lparr>rt_strict = True, activate = False, is_first_run = False,
       cfg_ptr = Some (level_cfg 0 0)\<rparr>,
      [])"
  by (simp add: process_def Let_def)

section \<open>Enumerating the AC space\<close>

lemma unat_pow2: "i < 32 \<Longrightarrow> unat (2 ^ i :: 32 word) = 2 ^ i"
proof -
  assume i: "i < 32"
  have "(2 ^ i :: 32 word) = of_nat (2 ^ i)" by simp
  then have "unat (2 ^ i :: 32 word) = 2 ^ i mod 2 ^ 32" by (simp add: unat_of_nat del: of_nat_power of_nat_numeral)
  moreover have "(2 :: nat) ^ i < 2 ^ 32" using i by (rule power_strict_increasing) simp
  ultimately show ?thesis by simp
qed

lemma shift_pow: "push_bit 1 (2 ^ i :: 32 word) = 2 ^ Suc i"
  by (simp add: push_bit_eq_mult)

lemma pow_gt_limit: "i \<le> 21 \<Longrightarrow> (2 ^ i :: 32 word) > 0x100000 \<longleftrightarrow> 20 < i"
proof -
  assume i: "i \<le> 21"
  have lim: "unat (0x100000 :: 32 word) = 2 ^ 20" by simp
  have "unat (0x100000 :: 32 word) < unat (2 ^ i :: 32 word) \<longleftrightarrow> 20 < i"
    using i by (simp only: lim unat_pow2 power_strict_increasing_iff)
  then show ?thesis by (simp only: word_less_nat_alt)
qed


lemma get_entries_loop_pow:
  assumes "i \<le> 20"
  shows "\<exists>szs out. get_entries_loop ge (2 ^ i) tried = Some (tried @ szs, out) \<and>
           szs = map (\<lambda>j. 2 ^ (Suc i + j)) [0..<length szs] \<and>
           length szs \<le> 20 - i \<and>
           (\<forall>j < length szs - 1. fst (ge (2 ^ (Suc i + j))) = - 3) \<and>
           (out = Inl List_too_long \<longrightarrow>
              length szs = 20 - i \<and> (\<forall>j < 20 - i. fst (ge (2 ^ (Suc i + j))) = - 3)) \<and>
           (out \<noteq> Inl List_too_long \<longrightarrow>
              szs \<noteq> [] \<and> out = Inr (ge (last szs)) \<and> fst (ge (last szs)) \<noteq> - 3)"
  using assms
proof (induction "20 - i" arbitrary: i tried)
  case 0
  then have i: "i = 20" by simp
  have "get_entries_loop ge (2 ^ 20) tried = Some (tried, Inl List_too_long)"
    by (subst get_entries_loop.simps) (simp add: Let_def)
  with i show ?case by simp
next
  case (Suc n)
  then have i: "i < 20" and n: "n = 20 - Suc i" by simp_all
  let ?len = "2 ^ Suc i :: 32 word"
  have small: "\<not> ?len > 0x100000" using i pow_gt_limit [of "Suc i"] by (simp del: power_Suc)
  obtain rc entr where ge: "ge ?len = (rc, entr)" by (cases "ge ?len")
  have unfold: "get_entries_loop ge (2 ^ i) tried =
      (if rc = - 3 then get_entries_loop ge ?len (tried @ [?len])
       else Some (tried @ [?len], Inr (rc, entr)))"
    using small ge
      by (subst get_entries_loop.simps) (simp only: Let_def shift_pow, simp del: power_Suc)
  show ?case
  proof (cases "rc = - 3")
    case False
    with unfold ge i show ?thesis
      by (intro exI [of _ "[?len]"] exI [of _ "Inr (rc, entr)"]) simp
  next
    case True
    from i have "Suc i \<le> 20" by simp
    from Suc.hyps(1) [OF n this, of "tried @ [?len]"]
    obtain szs out where IH:
      "get_entries_loop ge ?len (tried @ [?len]) = Some ((tried @ [?len]) @ szs, out)"
      "szs = map (\<lambda>j. 2 ^ (Suc (Suc i) + j)) [0..<length szs]"
      "length szs \<le> 20 - Suc i"
      "\<forall>j < length szs - 1. fst (ge (2 ^ (Suc (Suc i) + j))) = - 3"
      "out = Inl List_too_long \<longrightarrow>
         length szs = 20 - Suc i \<and> (\<forall>j < 20 - Suc i. fst (ge (2 ^ (Suc (Suc i) + j))) = - 3)"
      "out \<noteq> Inl List_too_long \<longrightarrow>
         szs \<noteq> [] \<and> out = Inr (ge (last szs)) \<and> fst (ge (last szs)) \<noteq> - 3"
      by blast
    have first: "fst (ge (2 ^ (Suc i + 0))) = - 3" using ge True by simp
    have shiftall: "(\<forall>j < m. fst (ge (2 ^ (Suc (Suc i) + j))) = - 3) \<Longrightarrow>
        (\<forall>j < Suc m. fst (ge (2 ^ (Suc i + j))) = - 3)" for m
    proof (intro allI impI)
      fix j assume a: "\<forall>j < m. fst (ge (2 ^ (Suc (Suc i) + j))) = - 3" and j: "j < Suc m"
      show "fst (ge (2 ^ (Suc i + j))) = - 3"
      proof (cases j)
        case 0 with first show ?thesis by simp
      next
        case (Suc j') with a j show ?thesis by simp
      qed
    qed
    have szs_eq: "?len # szs = map (\<lambda>j. 2 ^ (Suc i + j)) [0..<length (?len # szs)]"
    proof -
      have eq: "(\<lambda>j. (2 :: 32 word) ^ (Suc i + Suc j)) = (\<lambda>j. 2 ^ (Suc (Suc i) + j))"
        by simp
      have "map (\<lambda>j. (2 :: 32 word) ^ (Suc i + j)) [0..<Suc (length szs)] =
            2 ^ (Suc i + 0) # map (\<lambda>j. 2 ^ (Suc i + Suc j)) [0..<length szs]"
        by (rule map_upt_Suc)
      also have "\<dots> = ?len # szs"
        by (simp only: eq add_0_right IH(2) [symmetric])
      finally show ?thesis by (simp only: length_Cons)
    qed
    show ?thesis
    proof (intro exI [of _ "?len # szs"] exI [of _ out] conjI)
      show "get_entries_loop ge (2 ^ i) tried = Some (tried @ ?len # szs, out)"
        using unfold True IH(1) by simp
      show "?len # szs = map (\<lambda>j. 2 ^ (Suc i + j)) [0..<length (?len # szs)]" by (rule szs_eq)
      show "length (?len # szs) \<le> 20 - i" using IH(3) i by simp
      show "\<forall>j < length (?len # szs) - 1. fst (ge (2 ^ (Suc i + j))) = - 3"
      proof (cases szs)
        case Nil then show ?thesis by simp
      next
        case (Cons a list)
        then have "length (?len # szs) - 1 = Suc (length szs - 1)" by simp
        with shiftall [OF IH(4)] show ?thesis by simp
      qed
      show "out = Inl List_too_long \<longrightarrow>
              length (?len # szs) = 20 - i \<and> (\<forall>j < 20 - i. fst (ge (2 ^ (Suc i + j))) = - 3)"
      proof
        assume "out = Inl List_too_long"
        with IH(5) have l: "length szs = 20 - Suc i"
          and a: "\<forall>j < 20 - Suc i. fst (ge (2 ^ (Suc (Suc i) + j))) = - 3" by simp_all
        from i have "20 - i = Suc (20 - Suc i)" by simp
        with l shiftall [OF a] show "length (?len # szs) = 20 - i \<and>
            (\<forall>j < 20 - i. fst (ge (2 ^ (Suc i + j))) = - 3)" by simp
      qed
      show "out \<noteq> Inl List_too_long \<longrightarrow>
              ?len # szs \<noteq> [] \<and> out = Inr (ge (last (?len # szs))) \<and>
              fst (ge (last (?len # szs))) \<noteq> - 3"
        using IH(6) by simp
    qed
  qed
qed


lemma last_sizes:
  assumes "szs = map (\<lambda>j. 2 ^ (Suc i + j)) [0..<length szs]" and "szs \<noteq> []"
  shows "last szs = (2 :: 32 word) ^ (Suc i + (length szs - 1))"
proof -
  from assms(2) have pos: "0 < length szs" by simp
  then have ne: "[0..<length szs] \<noteq> []" by simp
  have "last szs = last (map (\<lambda>j. (2 :: 32 word) ^ (Suc i + j)) [0..<length szs])"
    using assms(1) by simp
  also have "\<dots> = 2 ^ (Suc i + last [0..<length szs])" using ne by (rule last_map)
  also have "last [0..<length szs] = length szs - 1" using pos by (simp add: last_upt)
  finally show ?thesis .
qed

lemma get_entries_loop_512:
  "\<exists>tried out. get_entries_loop ge 512 [] = Some (tried, out) \<and>
     tried = map (\<lambda>j. 2 ^ (10 + j)) [0..<length tried] \<and> length tried \<le> 11 \<and>
     (\<forall>j < length tried - 1. fst (ge (2 ^ (10 + j))) = - 3) \<and>
     (out = Inl List_too_long \<longleftrightarrow> (\<forall>j < 11. fst (ge (2 ^ (10 + j))) = - 3)) \<and>
     (out \<noteq> Inl List_too_long \<longrightarrow>
        tried \<noteq> [] \<and> out = Inr (ge (last tried)) \<and> fst (ge (last tried)) \<noteq> - 3 \<and>
        last tried = 2 ^ (10 + (length tried - 1)))"
proof -
  have start: "get_entries_loop ge 512 [] = get_entries_loop ge (2 ^ 9) []" by simp
  from get_entries_loop_pow [of 9 ge "[]"]
  obtain szs out where L:
    "get_entries_loop ge (2 ^ 9) [] = Some (szs, out)"
    "szs = map (\<lambda>j. 2 ^ (Suc 9 + j)) [0..<length szs]"
    "length szs \<le> 11"
    "\<forall>j < length szs - 1. fst (ge (2 ^ (Suc 9 + j))) = - 3"
    "out = Inl List_too_long \<longrightarrow> length szs = 11 \<and> (\<forall>j < 11. fst (ge (2 ^ (Suc 9 + j))) = - 3)"
    "out \<noteq> Inl List_too_long \<longrightarrow>
       szs \<noteq> [] \<and> out = Inr (ge (last szs)) \<and> fst (ge (last szs)) \<noteq> - 3"
    by auto
  have lastm: "szs \<noteq> [] \<Longrightarrow> last szs = 2 ^ (10 + (length szs - 1))"
    using last_sizes [OF L(2)] by simp
  have giveup: "out = Inl List_too_long" if fails: "\<forall>j < 11. fst (ge (2 ^ (10 + j))) = - 3"
  proof (rule ccontr)
    assume "out \<noteq> Inl List_too_long"
    with L(6) have ne: "szs \<noteq> []" and bad: "fst (ge (last szs)) \<noteq> - 3" by simp_all
    from ne L(3) have "length szs - 1 < 11" by (cases szs) simp_all
    with fails have "fst (ge (2 ^ (10 + (length szs - 1)))) = - 3" by blast
    with bad lastm [OF ne] show False by simp
  qed
  have sizes: "szs = map (\<lambda>j. 2 ^ (10 + j)) [0..<length szs]"
    using L(2) by simp
  have quiet: "\<forall>j < length szs - 1. fst (ge (2 ^ (10 + j))) = - 3"
    using L(4) by simp
  have fwd: "out = Inl List_too_long \<longrightarrow> (\<forall>j < 11. fst (ge (2 ^ (10 + j))) = - 3)"
    using L(5) by simp
  from L(1,3,6) sizes quiet fwd giveup lastm show ?thesis
    unfolding start by (intro exI [of _ szs] exI [of _ out]) blast
qed

lemma ac_get_entries_too_small:
  "j \<le> 10 \<Longrightarrow> fst (ac_get_entries listing (2 ^ (10 + j))) = - 3 \<longleftrightarrow> 2 ^ (10 + j) \<le> length listing"
  by (simp add: ac_get_entries_def unat_pow2 not_less)

text \<open>
  C9. Enumeration ends for every behaviour of \<^verbatim>\<open>get_entries\<close>. It asks with the buffer
  lengths 1024, 2048, \<dots>, each the double of the one before and none above \<open>2 ^ 20\<close>
  (1 MiB), going on only after the code \<open>- 3\<close>, and it gives up with the fatal error
  exactly when all eleven lengths up to 1 MiB were too small. Against a catalogue it
  returns the tokens of the bracketed listing when the listing and its terminating zero
  fit in 1 MiB, and raises the error otherwise.
\<close>

theorem get_all_names_terminates:
  "(\<exists>r. get_all_names_from_ac_space ge str2val = Some r) \<and>
   (\<exists>tried out. get_entries_loop ge 512 [] = Some (tried, out) \<and>
      tried = map (\<lambda>j. 2 ^ (10 + j)) [0..<length tried] \<and> length tried \<le> 11 \<and>
      (\<forall>j < length tried - 1. fst (ge (2 ^ (10 + j))) = - 3) \<and>
      (out = Inl List_too_long \<longleftrightarrow> (\<forall>j < 11. fst (ge (2 ^ (10 + j))) = - 3))) \<and>
   (length listing < 2 ^ 20 \<longrightarrow>
      get_all_names_from_ac_space (ac_get_entries listing) str2val =
        Some (str2val (''['' @ listing @ '']''))) \<and>
   (2 ^ 20 \<le> length listing \<longrightarrow>
      get_all_names_from_ac_space (ac_get_entries listing) str2val = Some (Inl List_too_long))"
proof (intro conjI impI)
  from get_entries_loop_512 [of ge]
  obtain tried out where "get_entries_loop ge 512 [] = Some (tried, out)" by blast
  then show "\<exists>r. get_all_names_from_ac_space ge str2val = Some r"
    by (cases out) (auto simp: get_all_names_from_ac_space_def)
  from get_entries_loop_512 [of ge]
  show "\<exists>tried out. get_entries_loop ge 512 [] = Some (tried, out) \<and>
      tried = map (\<lambda>j. 2 ^ (10 + j)) [0..<length tried] \<and> length tried \<le> 11 \<and>
      (\<forall>j < length tried - 1. fst (ge (2 ^ (10 + j))) = - 3) \<and>
      (out = Inl List_too_long \<longleftrightarrow> (\<forall>j < 11. fst (ge (2 ^ (10 + j))) = - 3))"
    by blast
next
  let ?ge = "ac_get_entries listing"
  from get_entries_loop_512 [of ?ge]
  obtain tried out where L:
    "get_entries_loop ?ge 512 [] = Some (tried, out)"
    "out = Inl List_too_long \<longleftrightarrow> (\<forall>j < 11. fst (?ge (2 ^ (10 + j))) = - 3)"
    "out \<noteq> Inl List_too_long \<longrightarrow>
        tried \<noteq> [] \<and> out = Inr (?ge (last tried)) \<and> fst (?ge (last tried)) \<noteq> - 3"
    by blast
  {
    assume fits: "length listing < 2 ^ 20"
    have "fst (?ge (2 ^ (10 + 10))) \<noteq> - 3"
      using fits ac_get_entries_too_small [of 10 listing] by simp
    moreover have "(10 :: nat) < 11" by simp
    ultimately have "\<not> (\<forall>j < 11. fst (?ge (2 ^ (10 + j))) = - 3)" by blast
    with L(2,3) have "out = Inr (?ge (last tried))" and "fst (?ge (last tried)) \<noteq> - 3"
      by blast+
    then have "out = Inr (0, listing)"
      by (auto simp: ac_get_entries_def split: if_splits)
    with L(1) show "get_all_names_from_ac_space ?ge str2val =
        Some (str2val (''['' @ listing @ '']''))"
      by (simp add: get_all_names_from_ac_space_def)
  }
  {
    assume big: "2 ^ 20 \<le> length listing"
    have "fst (?ge (2 ^ (10 + j))) = - 3" if "j < 11" for j
    proof -
      from that have j: "j \<le> 10" by simp
      then have "(2 :: nat) ^ (10 + j) \<le> 2 ^ 20" by (intro power_increasing) simp_all
      with big j show ?thesis by (simp add: ac_get_entries_too_small)
    qed
    with L(2) have "out = Inl List_too_long" by blast
    with L(1) show "get_all_names_from_ac_space ?ge str2val = Some (Inl List_too_long)"
      by (simp add: get_all_names_from_ac_space_def)
  }
qed


theorem get_all_names_terminates_witness:
  "get_all_names_from_ac_space (ac_get_entries (replicate 307200 CHR ''a'')) (\<lambda>s. Inr [s]) =
     Some (Inr [''['' @ replicate 307200 CHR ''a'' @ '']'']) \<and>
   get_all_names_from_ac_space (ac_get_entries (replicate 1048576 CHR ''a'')) (\<lambda>s. Inr [s]) =
     Some (Inl List_too_long)"
  using get_all_names_terminates
      [where listing = "replicate 307200 CHR ''a''" and str2val = "\<lambda>s. Inr [s]"
         and ge = "ac_get_entries []"]
    get_all_names_terminates
      [where listing = "replicate 1048576 CHR ''a''" and str2val = "\<lambda>s. Inr [s]"
         and ge = "ac_get_entries []"]
  by simp

section \<open>The declared sampling rate\<close>

text \<open>
  The rate and the source id that a stream declares are those of the registry that built
  it: the constructor and every later replacement pass \<^verbatim>\<open>srate\<close> and \<^verbatim>\<open>source_id\<close> on.
\<close>

lemma info_set_buf_address: "info (set_buf_address sv p) = info sv"
  by (cases sv) simp_all

lemma rate_inv_assign:
  assumes "rate_inv cfg" and "nominal_srate (info sv) = srate cfg"
    and "stream_source_id (info sv) = source_id cfg"
  shows "rate_inv (cfg\<lparr>varlist := map_assign nm sv (varlist cfg)\<rparr>)"
  using assms set_map_assign_subset [of nm sv "varlist cfg"]
  by (auto simp: rate_inv_def list_all_iff)

lemma make_or_replace_var_rate:
  assumes "make_or_replace_var cfg nm v = Inr cfg'" and "rate_inv cfg"
  shows "rate_inv cfg'"
proof -
  from make_or_replace_var_Inr [OF assms(1)] obtain sv where
    "cfg' = cfg\<lparr>varlist := map_assign nm sv (varlist cfg)\<rparr>"
    "nominal_srate (info sv) = srate cfg" "stream_source_id (info sv) = source_id cfg"
    by blast
  with assms(2) show ?thesis by (simp add: rate_inv_assign)
qed

lemma update_var_rate:
  assumes "update_var ac cfg nm = Inr (cfg', ev)" and "rate_inv cfg"
  shows "rate_inv cfg'"
proof (cases "adapter cfg nm")
  case None
  with assms show ?thesis by (auto simp: update_var_def split: option.splits)
next
  case (Some sv)
  then have "(nm, sv) \<in> set (varlist cfg)" by (auto simp: adapter_def dest: map_of_SomeD)
  with assms(2) have "nominal_srate (info sv) = srate cfg"
    "stream_source_id (info sv) = source_id cfg"
    by (auto simp: rate_inv_def list_all_iff)
  then have "rate_inv (cfg\<lparr>varlist := map_assign nm (set_buf_address sv p) (varlist cfg)\<rparr>)" for p
    using assms(2) by (intro rate_inv_assign) (simp_all add: info_set_buf_address)
  with assms Some show ?thesis
    by (auto simp: update_var_def dest: make_or_replace_var_rate
             split: option.splits if_splits sum.splits)
qed

lemma update_loop_rate:
  "update_loop ac nms cfg evs = (e, cfg', evs') \<Longrightarrow> rate_inv cfg \<Longrightarrow> rate_inv cfg'"
proof (induction nms arbitrary: cfg evs)
  case Nil
  then show ?case by simp
next
  case (Cons nm nms)
  show ?case
  proof (cases "update_var ac cfg nm :: error + ('a cfg_t \<times> 'b event list)")
    case (Inl err)
    with Cons.prems show ?thesis by simp
  next
    case (Inr r)
    obtain cfg1 ev where r: "r = (cfg1, ev)" by (cases r)
    from Cons.prems(1) Inr r have "update_loop ac nms cfg1 (evs @ ev) = (e, cfg', evs')" by simp
    moreover from Inr r Cons.prems(2) have "rate_inv cfg1" by (auto dest: update_var_rate)
    ultimately show ?thesis by (rule Cons.IH)
  qed
qed

lemma cfg_init_loop_rate:
  "cfg_init_loop ac nms cfg = Inr cfg' \<Longrightarrow> rate_inv cfg \<Longrightarrow> rate_inv cfg'"
proof (induction nms arbitrary: cfg)
  case Nil
  then show ?case by simp
next
  case (Cons nm nms)
  from Cons.prems(1) obtain v cfg1 where
    m: "make_or_replace_var cfg nm v = Inr cfg1" and rest: "cfg_init_loop ac nms cfg1 = Inr cfg'"
    by (auto split: option.splits sum.splits)
  from make_or_replace_var_rate [OF m Cons.prems(2)] show ?case by (rule Cons.IH [OF rest])
qed

lemma registry_declares_rate:
  assumes "new_cfg_t ac k sid names rate = Inr cfg"
  shows "rate_inv cfg \<and> srate cfg = rate \<and> source_id cfg = sid"
proof -
  from assms have "rate_inv cfg"
    unfolding new_cfg_t_def by (rule cfg_init_loop_rate) (simp add: rate_inv_def)
  moreover from assms have "srate cfg = rate \<and> source_id cfg = sid"
    by (auto simp: new_cfg_t_def dest: cfg_init_loop_fields)
  ultimately show ?thesis by simp
qed

lemma cfg_process_rate:
  assumes "cfg_process ac mem cfg = (e, cfg', tr)" and "rate_inv cfg"
  shows "rate_inv cfg' \<and> srate cfg' = srate cfg"
proof -
  obtain uerr cfg1 evs where u: "update_varlist ac cfg = (uerr, cfg1, evs :: 'b event list)"
    by (cases "update_varlist ac cfg :: error option \<times> 'a cfg_t \<times> 'b event list")
  from u assms(2) have "rate_inv cfg1"
    unfolding update_varlist_def by (rule update_loop_rate)
  moreover note update_varlist_keep(4) [OF u]
  ultimately show ?thesis
    using assms(1) u by (cases uerr) (auto simp: cfg_process_def rate_inv_def split: if_splits)
qed

end
